theory Spec2Isabelle
  imports Complex_Main "HOL-Library.Word" "HOL-Library.Log_Nat"
begin

section \<open>The goon module: conventions of the embedding\<close>

text \<open>
  The embedding follows \<^verbatim>\<open>src/goon-module.c\<close> function by function.

  \<^item> A non-null pointer is an address (\<open>addr\<close>); a pointer that may be \<^verbatim>\<open>NULL\<close> is an
    \<open>addr option\<close>, or an option of whatever is read through it.
  \<^item> The struct a function operates on (cache, pool, queue, context) is passed and
    returned as a record. Every such function starts with a \<^verbatim>\<open>NULL\<close> check on that
    pointer and returns before touching anything; the record stands for the case
    where the struct exists.
  \<^item> \<^verbatim>\<open>size_t\<close>, \<^verbatim>\<open>uint64_t\<close> and \<^verbatim>\<open>time_t\<close> are 64 bits (LP64). Counters that the code
    only increments below a bound it checks first (the cache's \<^verbatim>\<open>count\<close>, the pool's
    \<^verbatim>\<open>size\<close>) are natural numbers; counters that can wrap are words.
  \<^item> What the code reads from outside (\<^verbatim>\<open>time(NULL)\<close>, \<^verbatim>\<open>clock()\<close>, the outcome of
    \<^verbatim>\<open>malloc\<close> or of the pool's allocator) is an argument of the function that reads it.
  \<^item> A C string (the bytes before the terminating NUL) is a \<open>string\<close>.
  \<^item> The log records written by \<^verbatim>\<open>GOON_LOG\<close> go to an external sink and are left out.
\<close>

type_synonym addr = nat
type_synonym byte = "8 word"
type_synonym time_t = "64 word"

definition GOON_MAX_NAME_LEN :: nat where "GOON_MAX_NAME_LEN = 128"
definition GOON_CACHE_SIZE :: nat where "GOON_CACHE_SIZE = 64"

definition GOON_SUCCESS :: int where "GOON_SUCCESS = 0"
definition GOON_ERROR :: int where "GOON_ERROR = - 1"
definition GOON_ERROR_NULL_PTR :: int where "GOON_ERROR_NULL_PTR = - 2"
definition GOON_ERROR_INVALID_PARAM :: int where "GOON_ERROR_INVALID_PARAM = - 3"
definition GOON_ERROR_OUT_OF_MEMORY :: int where "GOON_ERROR_OUT_OF_MEMORY = - 4"
definition GOON_ERROR_NOT_FOUND :: int where "GOON_ERROR_NOT_FOUND = - 5"
definition GOON_ERROR_OVERFLOW :: int where "GOON_ERROR_OVERFLOW = - 6"
definition GOON_ERROR_UNDERFLOW :: int where "GOON_ERROR_UNDERFLOW = - 7"

text \<open>
  \<^verbatim>\<open>strncpy(dst, src, GOON_MAX_NAME_LEN - 1); dst[GOON_MAX_NAME_LEN - 1] = '\0';\<close>
  leaves in \<open>dst\<close> the first 127 bytes of \<open>src\<close>.
\<close>

definition name_copy :: "string \<Rightarrow> string" where
  "name_copy src = take (GOON_MAX_NAME_LEN - 1) src"

section \<open>The recency cache\<close>

text \<open>
  \<^verbatim>\<open>struct goon_cache\<close>: four parallel arrays of \<open>GOON_CACHE_SIZE\<close> slots and a count.
  A value slot is \<open>None\<close> for \<^verbatim>\<open>NULL\<close> and otherwise holds the bytes of the owned buffer.
\<close>

record goon_cache =
  c_keys :: "string list"
  c_values :: "byte list option list"
  c_timestamps :: "time_t list"
  c_sizes :: "nat list"
  c_count :: nat

text \<open>The arrays have their declared length and the count is within it.\<close>

definition cache_wf :: "goon_cache \<Rightarrow> bool" where
  "cache_wf c \<longleftrightarrow>
     length (c_keys c) = GOON_CACHE_SIZE \<and> length (c_values c) = GOON_CACHE_SIZE \<and>
     length (c_timestamps c) = GOON_CACHE_SIZE \<and> length (c_sizes c) = GOON_CACHE_SIZE \<and>
     c_count c \<le> GOON_CACHE_SIZE"

text \<open>
  \<^verbatim>\<open>for (i = 0; i < cache->count; i++) if (strcmp(cache->keys[i], key) == 0) ...\<close>:
  the index of the first slot below \<open>n\<close> that holds \<open>key\<close>, scanning from \<open>i\<close>.
\<close>

function cache_find :: "string list \<Rightarrow> string \<Rightarrow> nat \<Rightarrow> nat \<Rightarrow> nat option" where
  "cache_find ks key i n =
     (if i < n then (if ks ! i = key then Some i else cache_find ks key (Suc i) n)
      else None)"
  by pat_completeness auto
termination
  by (relation "measure (\<lambda>(ks, key, i, n). n - i)") auto

declare cache_find.simps [simp del]

text \<open>
  The eviction scan of \<^verbatim>\<open>goon_cache_set\<close>:
  \<^verbatim>\<open>for (i = 1; i < GOON_CACHE_SIZE; i++) if (timestamps[i] < oldest_time) { ... }\<close>.
  \<^verbatim>\<open>time_t\<close> is signed, so the comparison is on \<open>sint\<close>.
\<close>

function cache_oldest :: "time_t list \<Rightarrow> nat \<Rightarrow> nat \<Rightarrow> time_t \<Rightarrow> nat" where
  "cache_oldest ts i oldest_idx oldest_time =
     (if i < GOON_CACHE_SIZE then
        (if sint (ts ! i) < sint oldest_time then cache_oldest ts (Suc i) i (ts ! i)
         else cache_oldest ts (Suc i) oldest_idx oldest_time)
      else oldest_idx)"
  by pat_completeness auto
termination
  by (relation "measure (\<lambda>(ts, i, oldest_idx, oldest_time). GOON_CACHE_SIZE - i)") auto

declare cache_oldest.simps [simp del]

text \<open>
  \<^verbatim>\<open>malloc(size)\<close> followed by \<^verbatim>\<open>memcpy(buf, value, size)\<close>: the bytes \<open>value[0..size)\<close>.
  The caller's memory behind \<open>value\<close> is a function from offsets to bytes.
\<close>

definition value_copy :: "(nat \<Rightarrow> byte) \<Rightarrow> nat \<Rightarrow> byte list" where
  "value_copy v n = map v [0..<n]"

text \<open>
  Writing one slot. \<open>mem_ok\<close> tells whether \<^verbatim>\<open>malloc\<close> returned a buffer: when it did not,
  the slot's value is left \<^verbatim>\<open>NULL\<close>, and size and timestamp are not written.
\<close>

definition cache_store ::
  "goon_cache \<Rightarrow> nat \<Rightarrow> (nat \<Rightarrow> byte) \<Rightarrow> nat \<Rightarrow> bool \<Rightarrow> time_t \<Rightarrow> int \<times> goon_cache" where
  "cache_store c i v n mem_ok now =
     (if \<not> mem_ok then
        (GOON_ERROR_OUT_OF_MEMORY, c\<lparr>c_values := (c_values c)[i := None]\<rparr>)
      else
        (GOON_SUCCESS,
         c\<lparr>c_values := (c_values c)[i := Some (value_copy v n)],
           c_sizes := (c_sizes c)[i := n],
           c_timestamps := (c_timestamps c)[i := now]\<rparr>))"

text \<open>
  \<^verbatim>\<open>goon_cache_set(cache, key, value, size)\<close>. \<open>now\<close> is what \<^verbatim>\<open>time(NULL)\<close> returns.
\<close>

definition goon_cache_set ::
  "goon_cache \<Rightarrow> string option \<Rightarrow> (nat \<Rightarrow> byte) option \<Rightarrow> nat \<Rightarrow> bool \<Rightarrow> time_t
     \<Rightarrow> int \<times> goon_cache" where
  "goon_cache_set c key val n mem_ok now =
     (case key of
        None \<Rightarrow> (GOON_ERROR_NULL_PTR, c)
      | Some k \<Rightarrow>
         (case val of
            None \<Rightarrow> (GOON_ERROR_NULL_PTR, c)
          | Some v \<Rightarrow>
             (case cache_find (c_keys c) k 0 (c_count c) of
                Some i \<Rightarrow> cache_store c i v n mem_ok now
              | None \<Rightarrow>
                 if c_count c \<ge> GOON_CACHE_SIZE then
                   (let oldest_idx = cache_oldest (c_timestamps c) 1 0 (c_timestamps c ! 0)
                    in cache_store (c\<lparr>c_keys := (c_keys c)[oldest_idx := name_copy k]\<rparr>)
                         oldest_idx v n mem_ok now)
                 else
                   (case cache_store (c\<lparr>c_keys := (c_keys c)[c_count c := name_copy k]\<rparr>)
                           (c_count c) v n mem_ok now of
                      (r, c') \<Rightarrow>
                        if r = GOON_SUCCESS then (r, c'\<lparr>c_count := c_count c + 1\<rparr>)
                        else (r, c')))))"

text \<open>The four fields of slot \<open>i\<close>.\<close>

definition cache_slot :: "goon_cache \<Rightarrow> nat \<Rightarrow> string \<times> byte list option \<times> nat \<times> time_t" where
  "cache_slot c i = (c_keys c ! i, c_values c ! i, c_sizes c ! i, c_timestamps c ! i)"

section \<open>The object pool\<close>

text \<open>
  \<^verbatim>\<open>struct goon_pool\<close>: the two arrays allocated with \<open>capacity\<close> entries, and the number of
  slots handed out so far. The allocator and the finalizer are function pointers; what
  \<^verbatim>\<open>pool->alloc(size)\<close> returns is an argument of \<open>goon_pool_acquire\<close>.
\<close>

record goon_pool =
  p_objects :: "addr option list"
  p_in_use :: "bool list"
  p_size :: nat
  p_capacity :: nat

definition pool_wf :: "goon_pool \<Rightarrow> bool" where
  "pool_wf p \<longleftrightarrow>
     length (p_objects p) = p_capacity p \<and> length (p_in_use p) = p_capacity p \<and>
     p_size p \<le> p_capacity p"

text \<open>
  \<^verbatim>\<open>for (i = 0; i < pool->size; i++) if (!pool->in_use[i] && pool->objects[i]) ...\<close>
\<close>

function pool_find_free :: "goon_pool \<Rightarrow> nat \<Rightarrow> nat option" where
  "pool_find_free p i =
     (if i < p_size p then
        (if \<not> p_in_use p ! i \<and> p_objects p ! i \<noteq> None then Some i
         else pool_find_free p (Suc i))
      else None)"
  by pat_completeness auto
termination
  by (relation "measure (\<lambda>(p, i). p_size p - i)") auto

declare pool_find_free.simps [simp del]

text \<open>
  \<^verbatim>\<open>for (i = 0; i < pool->size; i++) if (pool->objects[i] == obj) ...\<close>
\<close>

function pool_find_obj :: "goon_pool \<Rightarrow> addr \<Rightarrow> nat \<Rightarrow> nat option" where
  "pool_find_obj p obj i =
     (if i < p_size p then
        (if p_objects p ! i = Some obj then Some i else pool_find_obj p obj (Suc i))
      else None)"
  by pat_completeness auto
termination
  by (relation "measure (\<lambda>(p, obj, i). p_size p - i)") auto

declare pool_find_obj.simps [simp del]

text \<open>
  \<^verbatim>\<open>goon_pool_acquire(pool, size)\<close>. \<open>fresh\<close> is the pointer \<^verbatim>\<open>pool->alloc(size)\<close> returns if
  it is called (\<open>None\<close> for \<^verbatim>\<open>NULL\<close>). The requested size is passed to the allocator only.
\<close>

definition goon_pool_acquire :: "goon_pool \<Rightarrow> nat \<Rightarrow> addr option \<Rightarrow> addr option \<times> goon_pool" where
  "goon_pool_acquire p n fresh =
     (case pool_find_free p 0 of
        Some i \<Rightarrow> (p_objects p ! i, p\<lparr>p_in_use := (p_in_use p)[i := True]\<rparr>)
      | None \<Rightarrow>
         if p_size p < p_capacity p then
           (case fresh of
              None \<Rightarrow> (None, p)
            | Some obj \<Rightarrow>
               (Some obj,
                p\<lparr>p_objects := (p_objects p)[p_size p := Some obj],
                  p_in_use := (p_in_use p)[p_size p := True],
                  p_size := p_size p + 1\<rparr>))
         else (None, p))"

text \<open>\<^verbatim>\<open>goon_pool_release(pool, obj)\<close>\<close>

definition goon_pool_release :: "goon_pool \<Rightarrow> addr option \<Rightarrow> int \<times> goon_pool" where
  "goon_pool_release p obj =
     (case obj of
        None \<Rightarrow> (GOON_ERROR_NULL_PTR, p)
      | Some a \<Rightarrow>
         (case pool_find_obj p a 0 of
            Some i \<Rightarrow> (GOON_SUCCESS, p\<lparr>p_in_use := (p_in_use p)[i := False]\<rparr>)
          | None \<Rightarrow> (GOON_ERROR_NOT_FOUND, p)))"

section \<open>Events and the event queue\<close>

text \<open>
  Events and handlers are heap objects linked through their \<^verbatim>\<open>next\<close> fields, and the code
  works on these links; they are kept in explicit stores, maps from addresses to the
  objects allocated there. Reading or writing through a pointer that is not allocated is
  undefined behaviour in C: a function that does so returns \<open>None\<close>.

  Code supplied by the client (handler callbacks, data finalizers) acts on a part of the
  program state of type \<open>'w\<close>, the client's world. It stands for everything such code
  may touch besides the event it is given: the context's cache, stack, pool and user
  data, static variables, output streams. The registry, the queue and the lifecycle
  state are not in it: client code must not re-enter the driver during a dispatch.
\<close>

type_synonym size_t = "64 word"

datatype goon_state =
  GOON_STATE_IDLE | GOON_STATE_INITIALIZING | GOON_STATE_RUNNING | GOON_STATE_PAUSED |
  GOON_STATE_STOPPING | GOON_STATE_ERROR | GOON_STATE_TERMINATED

datatype goon_data_type =
  GOON_TYPE_INT | GOON_TYPE_FLOAT | GOON_TYPE_STRING | GOON_TYPE_POINTER | GOON_TYPE_BOOL |
  GOON_TYPE_CUSTOM

text \<open>
  \<^verbatim>\<open>goon_priority_t\<close> is an enum that \<^verbatim>\<open>goon_event_deserialize\<close> fills by a cast from any
  \<^verbatim>\<open>int\<close>, so a priority is a 32-bit value; these are its four named values.
\<close>

type_synonym goon_priority_t = "32 word"

definition GOON_PRIORITY_LOW :: goon_priority_t where "GOON_PRIORITY_LOW = 0"
definition GOON_PRIORITY_NORMAL :: goon_priority_t where "GOON_PRIORITY_NORMAL = 1"
definition GOON_PRIORITY_HIGH :: goon_priority_t where "GOON_PRIORITY_HIGH = 2"
definition GOON_PRIORITY_CRITICAL :: goon_priority_t where "GOON_PRIORITY_CRITICAL = 3"

text \<open>
  \<^verbatim>\<open>struct goon_data\<close>. The value is \<open>None\<close> for \<^verbatim>\<open>NULL\<close> and otherwise the bytes behind the
  pointer; the finalizer, when set, acts on the client's world.
\<close>

record 'w goon_data =
  d_type :: goon_data_type
  d_size :: nat
  d_value :: "byte list option"
  d_cleanup :: "(byte list \<Rightarrow> 'w \<Rightarrow> 'w) option"

record 'w goon_event =
  ev_id :: "32 word"
  ev_name :: string
  ev_priority :: goon_priority_t
  ev_timestamp :: time_t
  ev_data :: "'w goon_data option"
  ev_user_data :: "addr option"
  ev_next :: "addr option"

type_synonym 'w event_heap = "addr \<Rightarrow> 'w goon_event option"

record goon_queue =
  q_head :: "addr option"
  q_tail :: "addr option"
  q_size :: size_t
  q_max_size :: size_t

text \<open>
  \<^verbatim>\<open>goon_queue_push(queue, event)\<close>: the heap and the queue are returned as the call leaves
  them.
\<close>

definition goon_queue_push ::
  "'w event_heap \<Rightarrow> goon_queue \<Rightarrow> addr option \<Rightarrow> (int \<times> 'w event_heap \<times> goon_queue) option" where
  "goon_queue_push h q event =
     (case event of
        None \<Rightarrow> Some (GOON_ERROR_NULL_PTR, h, q)
      | Some e \<Rightarrow>
         if q_size q \<ge> q_max_size q then Some (GOON_ERROR_OVERFLOW, h, q)
         else
           (case h e of
              None \<Rightarrow> None
            | Some ev \<Rightarrow>
               (let h1 = h(e \<mapsto> ev\<lparr>ev_next := None\<rparr>) in
                (case q_tail q of
                   Some t \<Rightarrow>
                    (case h1 t of
                       None \<Rightarrow> None
                     | Some tv \<Rightarrow>
                        Some (GOON_SUCCESS, h1(t \<mapsto> tv\<lparr>ev_next := Some e\<rparr>),
                              q\<lparr>q_tail := Some e, q_size := q_size q + 1\<rparr>))
                 | None \<Rightarrow>
                    Some (GOON_SUCCESS, h1,
                          q\<lparr>q_head := Some e, q_tail := Some e, q_size := q_size q + 1\<rparr>)))))"

text \<open>\<^verbatim>\<open>goon_queue_pop(queue)\<close>: the popped pointer (\<open>None\<close> for \<^verbatim>\<open>NULL\<close>), the heap and the queue.\<close>

definition goon_queue_pop ::
  "'w event_heap \<Rightarrow> goon_queue \<Rightarrow> (addr option \<times> 'w event_heap \<times> goon_queue) option" where
  "goon_queue_pop h q =
     (case q_head q of
        None \<Rightarrow> Some (None, h, q)
      | Some e \<Rightarrow>
         (case h e of
            None \<Rightarrow> None
          | Some ev \<Rightarrow>
             Some (Some e, h(e \<mapsto> ev\<lparr>ev_next := None\<rparr>),
                   q\<lparr>q_head := ev_next ev,
                     q_tail := (if ev_next ev = None then None else q_tail q),
                     q_size := q_size q - 1\<rparr>)))"

definition goon_queue_size :: "goon_queue \<Rightarrow> size_t" where
  "goon_queue_size q = q_size q"

definition goon_queue_is_empty :: "goon_queue \<Rightarrow> bool" where
  "goon_queue_is_empty q \<longleftrightarrow> q_size q = 0"

text \<open>A run of calls \<^verbatim>\<open>push(e1); ...; push(en)\<close>, with the value each call returns.\<close>

fun push_all ::
  "'w event_heap \<Rightarrow> goon_queue \<Rightarrow> addr list \<Rightarrow> (int list \<times> 'w event_heap \<times> goon_queue) option" where
  "push_all h q [] = Some ([], h, q)"
| "push_all h q (e # es) =
     (case goon_queue_push h q (Some e) of
        None \<Rightarrow> None
      | Some (r, h1, q1) \<Rightarrow>
         (case push_all h1 q1 es of
            None \<Rightarrow> None
          | Some (rs, h2, q2) \<Rightarrow> Some (r # rs, h2, q2)))"

text \<open>A run of \<open>n\<close> calls of \<^verbatim>\<open>pop\<close>, with the pointer each call returns.\<close>

fun pop_n ::
  "nat \<Rightarrow> 'w event_heap \<Rightarrow> goon_queue \<Rightarrow> (addr option list \<times> 'w event_heap \<times> goon_queue) option" where
  "pop_n 0 h q = Some ([], h, q)"
| "pop_n (Suc n) h q =
     (case goon_queue_pop h q of
        None \<Rightarrow> None
      | Some (r, h1, q1) \<Rightarrow>
         (case pop_n n h1 q1 of
            None \<Rightarrow> None
          | Some (rs, h2, q2) \<Rightarrow> Some (r # rs, h2, q2)))"

text \<open>
  The queue as a list: \<open>ev_path h p as\<close> says that following \<^verbatim>\<open>next\<close> from \<open>p\<close> visits
  exactly the allocated events \<open>as\<close> and then reaches \<^verbatim>\<open>NULL\<close>.
\<close>

fun ev_path :: "'w event_heap \<Rightarrow> addr option \<Rightarrow> addr list \<Rightarrow> bool" where
  "ev_path h p [] \<longleftrightarrow> p = None"
| "ev_path h p (a # as) \<longleftrightarrow>
     p = Some a \<and> (case h a of None \<Rightarrow> False | Some ev \<Rightarrow> ev_path h (ev_next ev) as)"

text \<open>
  The queue's invariant of the data model: head and tail delimit an acyclic list, and
  the size is its length.
\<close>

definition queue_inv :: "'w event_heap \<Rightarrow> goon_queue \<Rightarrow> addr list \<Rightarrow> bool" where
  "queue_inv h q as \<longleftrightarrow>
     ev_path h (q_head q) as \<and> distinct as \<and>
     q_tail q = (if as = [] then None else Some (last as)) \<and>
     q_size q = of_nat (length as) \<and> length as < 2 ^ 64"

text \<open>
  Between two heaps no event was allocated or freed, and no field of an event other than
  its \<^verbatim>\<open>next\<close> link differs.
\<close>

definition only_links_changed :: "'w event_heap \<Rightarrow> 'w event_heap \<Rightarrow> bool" where
  "only_links_changed h h' \<longleftrightarrow>
     dom h' = dom h \<and> (\<forall>a v. h a = Some v \<longrightarrow> (\<exists>n. h' a = Some (v\<lparr>ev_next := n\<rparr>)))"

section \<open>Double-precision arithmetic\<close>

text \<open>
  The average execution time of a handler is a \<^verbatim>\<open>double\<close>. A \<^verbatim>\<open>double\<close> is an IEEE 754
  binary64 number: a real number \<open>m * 2^e\<close> with \<open>\<bar>m\<bar> < 2^53\<close> and \<open>-1074 \<le> e \<le> 971\<close>, an
  infinity, or a NaN. Every arithmetic operation and every conversion from an integer
  yields the exact result rounded to the nearest such number, to the one with an even
  \<open>m\<close> on a tie, and to an infinity from \<open>2^1024 - 2^970\<close> on; every operation is rounded
  on its own. The two zeros are not told apart: the one operation whose result depends on
  the sign of a zero is a division by it, and the only divisor that can be zero in this
  code is converted from an unsigned counter, which gives \<open>+0\<close>.
\<close>

datatype double = Num real | PosInf | NegInf | NaN

text \<open>The binary exponent \<open>\<lfloor>log\<^sub>2 \<bar>x\<bar>\<rfloor>\<close> of a real number other than 0.\<close>

definition expo2 :: "real \<Rightarrow> int" where
  "expo2 x = (if 1 \<le> \<bar>x\<bar> then bitlen \<lfloor>\<bar>x\<bar>\<rfloor> - 1 else - bitlen (\<lceil>1 / \<bar>x\<bar>\<rceil> - 1))"

text \<open>The nearest integer, the even one of the two on a tie.\<close>

definition round_even :: "real \<Rightarrow> int" where
  "round_even x =
     (let f = \<lfloor>x\<rfloor>; d = x - of_int f
      in if d < 1 / 2 then f else if 1 / 2 < d then f + 1 else if even f then f else f + 1)"

text \<open>
  Rounding to \<^verbatim>\<open>double\<close>: the spacing of the numbers around \<open>x\<close> is \<open>2^(e - 52)\<close>, where \<open>e\<close>
  is the exponent of \<open>x\<close>, and \<open>2^(-1074)\<close> below \<open>2^(-1022)\<close>.
\<close>

definition d_round :: "real \<Rightarrow> double" where
  "d_round x =
     (if x = 0 then Num 0
      else
        (let e = max (expo2 x) (- 1022);
             q = 2 powi (e - 52);
             y = of_int (round_even (x / q)) * q
         in if \<bar>y\<bar> < 2 ^ 1024 then Num y else if 0 < x then PosInf else NegInf))"



text \<open>The conversion \<^verbatim>\<open>(double) i\<close> of an integer.\<close>

definition d_of_int :: "int \<Rightarrow> double" where
  "d_of_int i = d_round (of_int i)"

text \<open>The operators \<^verbatim>\<open>+\<close>, \<^verbatim>\<open>*\<close> and \<^verbatim>\<open>/\<close> on \<^verbatim>\<open>double\<close>.\<close>

fun d_add :: "double \<Rightarrow> double \<Rightarrow> double" where
  "d_add (Num a) (Num b) = d_round (a + b)"
| "d_add (Num a) PosInf = PosInf"
| "d_add (Num a) NegInf = NegInf"
| "d_add PosInf (Num b) = PosInf"
| "d_add PosInf PosInf = PosInf"
| "d_add PosInf NegInf = NaN"
| "d_add NegInf (Num b) = NegInf"
| "d_add NegInf NegInf = NegInf"
| "d_add NegInf PosInf = NaN"
| "d_add NaN y = NaN"
| "d_add x NaN = NaN"

fun d_mul :: "double \<Rightarrow> double \<Rightarrow> double" where
  "d_mul (Num a) (Num b) = d_round (a * b)"
| "d_mul (Num a) PosInf = (if a = 0 then NaN else if 0 < a then PosInf else NegInf)"
| "d_mul (Num a) NegInf = (if a = 0 then NaN else if 0 < a then NegInf else PosInf)"
| "d_mul PosInf (Num b) = (if b = 0 then NaN else if 0 < b then PosInf else NegInf)"
| "d_mul NegInf (Num b) = (if b = 0 then NaN else if 0 < b then NegInf else PosInf)"
| "d_mul PosInf PosInf = PosInf"
| "d_mul PosInf NegInf = NegInf"
| "d_mul NegInf PosInf = NegInf"
| "d_mul NegInf NegInf = PosInf"
| "d_mul NaN y = NaN"
| "d_mul x NaN = NaN"

fun d_div :: "double \<Rightarrow> double \<Rightarrow> double" where
  "d_div (Num a) (Num b) =
     (if b = 0 then (if a = 0 then NaN else if 0 < a then PosInf else NegInf)
      else d_round (a / b))"
| "d_div (Num a) PosInf = Num 0"
| "d_div (Num a) NegInf = Num 0"
| "d_div PosInf (Num b) = (if 0 \<le> b then PosInf else NegInf)"
| "d_div NegInf (Num b) = (if 0 \<le> b then NegInf else PosInf)"
| "d_div PosInf PosInf = NaN"
| "d_div PosInf NegInf = NaN"
| "d_div NegInf PosInf = NaN"
| "d_div NegInf NegInf = NaN"
| "d_div NaN y = NaN"
| "d_div x NaN = NaN"


fun d_finite :: "double \<Rightarrow> bool" where
  "d_finite (Num a) \<longleftrightarrow> True"
| "d_finite PosInf \<longleftrightarrow> False"
| "d_finite NegInf \<longleftrightarrow> False"
| "d_finite NaN \<longleftrightarrow> False"

section \<open>Handlers, the context and the driver\<close>

text \<open>
  \<^verbatim>\<open>struct goon_handler\<close>. The field \<^verbatim>\<open>func\<close> is a function pointer, the address of the code
  of the callback (\<open>fptr\<close>); what the code at an address does is given by the program,
  below.
\<close>

type_synonym fptr = nat

record goon_handler =
  h_id :: "32 word"
  h_name :: string
  h_func :: fptr
  h_user_data :: "addr option"
  h_enabled :: bool
  h_call_count :: "64 word"
  h_error_count :: "64 word"
  h_avg_exec_time :: double
  h_next :: "addr option"

text \<open>
  \<^verbatim>\<open>struct goon_context\<close>, the fields the driver owns. The queue struct is created with the
  context and has one owner, so it is held in place. The call stack, the cache, the
  pool and the user data are reached by client code only and belong to the client's
  world.
\<close>

record goon_context =
  ctx_id :: "32 word"
  ctx_name :: string
  ctx_state :: goon_state
  ctx_handlers :: "addr option"
  ctx_handler_count :: size_t
  ctx_event_queue :: goon_queue
  ctx_event_count :: "64 word"
  ctx_total_events_processed :: "64 word"
  ctx_start_time :: time_t
  ctx_debug_mode :: bool

text \<open>
  One invocation of a callback as the driver observes it: which handler, on which event,
  the status it returned and the elapsed time the driver computed. The list of these is
  kept beside the program state to state in which order callbacks ran; the code has no
  such field.
\<close>

record goon_call =
  k_handler :: addr
  k_event :: addr
  k_result :: int
  k_exec_time :: double

text \<open>
  The memory the driver works on besides the context struct: the two object stores, the
  client's world, and the processor clock. \<open>m_ticks k\<close> is what the \<open>k\<close>-th call of
  \<^verbatim>\<open>clock()\<close> by the driver returns, \<open>m_reads\<close> counts the calls it has made so far.
\<close>

record 'w goon_mem =
  m_events :: "'w event_heap"
  m_handlers :: "addr \<Rightarrow> goon_handler option"
  m_world :: 'w
  m_ticks :: "nat \<Rightarrow> int"
  m_reads :: nat
  m_calls :: "goon_call list"

text \<open>
  A handler callback \<^verbatim>\<open>int func(goon_context_t *ctx, goon_event_t *event, void *user_data)\<close>.
  It is given the context and the event by pointer and runs on the whole memory: it can
  change the context (its state, its queue, its registry), every event and every
  handler, and the client's world. It returns a status and the context and the memory as
  it leaves them, or \<open>None\<close> if it does not return or its behaviour is undefined. The
  status is only ever compared with \<open>GOON_SUCCESS\<close>.

  The program, as far as the driver calls into it, is the map from function pointers to
  callbacks.
\<close>

type_synonym 'w goon_handler_func =
  "goon_context \<Rightarrow> addr \<Rightarrow> addr option \<Rightarrow> 'w goon_mem \<Rightarrow> (int \<times> goon_context \<times> 'w goon_mem) option"

type_synonym 'w goon_code = "fptr \<Rightarrow> 'w goon_handler_func"

text \<open>The \<^verbatim>\<open><time.h>\<close> macro, with the value POSIX prescribes.\<close>

definition CLOCKS_PER_SEC :: int where "CLOCKS_PER_SEC = 1000000"

text \<open>\<^verbatim>\<open>goon_data_destroy(data)\<close>: runs the finalizer on the value, if both are there.\<close>

definition goon_data_destroy :: "'w goon_data \<Rightarrow> 'w \<Rightarrow> 'w" where
  "goon_data_destroy d w =
     (case d_cleanup d of
        Some cleanup \<Rightarrow> (case d_value d of Some v \<Rightarrow> cleanup v w | None \<Rightarrow> w)
      | None \<Rightarrow> w)"

text \<open>\<^verbatim>\<open>goon_event_destroy(event)\<close>: destroys the payload and frees the event.\<close>

definition goon_event_destroy :: "addr option \<Rightarrow> 'w goon_mem \<Rightarrow> 'w goon_mem option" where
  "goon_event_destroy event m =
     (case event of
        None \<Rightarrow> Some m
      | Some e \<Rightarrow>
         (case m_events m e of
            None \<Rightarrow> None
          | Some ev \<Rightarrow>
             Some (m\<lparr>m_world := (case ev_data ev of
                                     Some d \<Rightarrow> goon_data_destroy d (m_world m)
                                   | None \<Rightarrow> m_world m),
                      m_events := (m_events m)(e := None)\<rparr>)))"

text \<open>\<^verbatim>\<open>goon_context_register_handler(ctx, handler)\<close>\<close>

definition goon_context_register_handler ::
  "goon_context \<Rightarrow> 'w goon_mem \<Rightarrow> addr option \<Rightarrow> (int \<times> goon_context \<times> 'w goon_mem) option" where
  "goon_context_register_handler ctx m handler =
     (case handler of
        None \<Rightarrow> Some (GOON_ERROR_NULL_PTR, ctx, m)
      | Some a \<Rightarrow>
         (case m_handlers m a of
            None \<Rightarrow> None
          | Some hv \<Rightarrow>
             Some (GOON_SUCCESS,
                   ctx\<lparr>ctx_handlers := Some a, ctx_handler_count := ctx_handler_count ctx + 1\<rparr>,
                   m\<lparr>m_handlers := (m_handlers m)(a \<mapsto> hv\<lparr>h_next := ctx_handlers ctx\<rparr>)\<rparr>)))"

text \<open>A run of calls \<^verbatim>\<open>register(h1); ...; register(hn)\<close>, with the value each call returns.\<close>

fun register_all ::
  "goon_context \<Rightarrow> 'w goon_mem \<Rightarrow> addr list \<Rightarrow> (int list \<times> goon_context \<times> 'w goon_mem) option" where
  "register_all ctx m [] = Some ([], ctx, m)"
| "register_all ctx m (a # as) =
     (case goon_context_register_handler ctx m (Some a) of
        None \<Rightarrow> None
      | Some (r, ctx1, m1) \<Rightarrow>
         (case register_all ctx1 m1 as of
            None \<Rightarrow> None
          | Some (rs, ctx2, m2) \<Rightarrow> Some (r # rs, ctx2, m2)))"

text \<open>\<^verbatim>\<open>goon_context_set_state(ctx, state)\<close> and \<^verbatim>\<open>goon_context_get_state(ctx)\<close>\<close>

definition goon_context_set_state :: "goon_context \<Rightarrow> goon_state \<Rightarrow> int \<times> goon_context" where
  "goon_context_set_state ctx st = (GOON_SUCCESS, ctx\<lparr>ctx_state := st\<rparr>)"

definition goon_context_get_state :: "goon_context \<Rightarrow> goon_state" where
  "goon_context_get_state ctx = ctx_state ctx"

text \<open>\<^verbatim>\<open>goon_context_emit_event(ctx, event)\<close>\<close>

definition goon_context_emit_event ::
  "goon_context \<Rightarrow> 'w goon_mem \<Rightarrow> addr option \<Rightarrow> (int \<times> goon_context \<times> 'w goon_mem) option" where
  "goon_context_emit_event ctx m event =
     (case event of
        None \<Rightarrow> Some (GOON_ERROR_NULL_PTR, ctx, m)
      | Some e \<Rightarrow>
         (case goon_queue_push (m_events m) (ctx_event_queue ctx) (Some e) of
            None \<Rightarrow> None
          | Some (result, h, q) \<Rightarrow>
             Some (result,
                   ctx\<lparr>ctx_event_queue := q,
                       ctx_event_count := (if result = GOON_SUCCESS then ctx_event_count ctx + 1
                                           else ctx_event_count ctx)\<rparr>,
                   m\<lparr>m_events := h\<rparr>)))"

text \<open>
  The elapsed time in milliseconds between two readings of the clock:
  \<^verbatim>\<open>((double)(end - start)) / CLOCKS_PER_SEC * 1000.0\<close>, where \<open>ticks\<close> is \<^verbatim>\<open>end - start\<close>.
\<close>

definition exec_time_ms :: "int \<Rightarrow> double" where
  "exec_time_ms ticks = d_mul (d_div (d_of_int ticks) (d_of_int CLOCKS_PER_SEC)) (Num 1000)"

text \<open>
  The accounting after a callback has returned \<open>result\<close> and taken \<open>exec_time\<close>
  milliseconds:
  \<^verbatim>\<open>handler->call_count++;\<close>
  \<^verbatim>\<open>handler->avg_exec_time = (handler->avg_exec_time * (handler->call_count - 1) + exec_time) / handler->call_count;\<close>
  \<^verbatim>\<open>if (result != GOON_SUCCESS) handler->error_count++;\<close>
  The counters are unsigned 64-bit and wrap; \<^verbatim>\<open>call_count - 1\<close> and \<^verbatim>\<open>call_count\<close> are
  converted to \<^verbatim>\<open>double\<close> for the multiplication and the division.
\<close>

definition handler_account :: "goon_handler \<Rightarrow> int \<Rightarrow> double \<Rightarrow> goon_handler" where
  "handler_account hv result exec_time =
     (let call_count = h_call_count hv + 1 in
      hv\<lparr>h_call_count := call_count,
         h_avg_exec_time :=
           d_div (d_add (d_mul (h_avg_exec_time hv) (d_of_int (uint (call_count - 1)))) exec_time)
                 (d_of_int (uint call_count)),
         h_error_count :=
           (if result \<noteq> GOON_SUCCESS then h_error_count hv + 1 else h_error_count hv)\<rparr>)"

text \<open>
  The body of \<^verbatim>\<open>if (handler->enabled) { ... }\<close> in \<^verbatim>\<open>goon_context_process_events\<close>: two
  clock readings around the call \<^verbatim>\<open>handler->func(ctx, event, handler->user_data)\<close>, then the
  accounting, on the handler as the callback has left it. The clock and the list of
  invocations are not variables of the program, so they are carried over from before the
  call.
\<close>

definition invoke_handler ::
  "'w goon_code \<Rightarrow> addr \<Rightarrow> addr \<Rightarrow> goon_context \<Rightarrow> 'w goon_mem \<Rightarrow> (goon_context \<times> 'w goon_mem) option" where
  "invoke_handler code a e ctx m =
     (case m_handlers m a of
        None \<Rightarrow> None
      | Some hv \<Rightarrow>
         (let start = m_ticks m (m_reads m) in
          (case code (h_func hv) ctx e (h_user_data hv) m of
             None \<Rightarrow> None
           | Some (result, ctx', m') \<Rightarrow>
              (let end = m_ticks m (m_reads m + 1);
                   exec_time = exec_time_ms (end - start)
               in (case m_handlers m' a of
                     None \<Rightarrow> None
                   | Some hv' \<Rightarrow>
                      Some (ctx',
                            m'\<lparr>m_handlers := (m_handlers m')(a \<mapsto> handler_account hv' result exec_time),
                               m_ticks := m_ticks m,
                               m_reads := m_reads m + 2,
                               m_calls := m_calls m @
                                 [\<lparr>k_handler = a, k_event = e, k_result = result,
                                   k_exec_time = exec_time\<rparr>]\<rparr>))))))"

text \<open>
  The inner loop \<^verbatim>\<open>while (handler) { ...; handler = handler->next; }\<close>. It follows the
  links of the registry as they are after each callback, and does not end on a cyclic
  one.
\<close>

partial_function (option) run_handlers ::
  "'w goon_code \<Rightarrow> addr option \<Rightarrow> addr \<Rightarrow> goon_context \<Rightarrow> 'w goon_mem \<Rightarrow>
   (goon_context \<times> 'w goon_mem) option" where
  "run_handlers code handler e ctx m =
     (case handler of
        None \<Rightarrow> Some (ctx, m)
      | Some a \<Rightarrow>
         (case m_handlers m a of
            None \<Rightarrow> None
          | Some hv \<Rightarrow>
             if h_enabled hv then
               (case invoke_handler code a e ctx m of
                  None \<Rightarrow> None
                | Some (ctx', m') \<Rightarrow>
                   (case m_handlers m' a of
                      None \<Rightarrow> None
                    | Some hv' \<Rightarrow> run_handlers code (h_next hv') e ctx' m'))
             else run_handlers code (h_next hv) e ctx m))"

text \<open>
  The outer loop of \<^verbatim>\<open>goon_context_process_events\<close>, with the running count
  \<^verbatim>\<open>processed\<close>. That count is an \<^verbatim>\<open>int\<close>: incrementing it at \<open>INT_MAX\<close> is undefined, which
  also bounds the number of rounds when callbacks keep the queue filled.
\<close>

function process_loop ::
  "'w goon_code \<Rightarrow> goon_context \<Rightarrow> 'w goon_mem \<Rightarrow> int \<Rightarrow> (int \<times> goon_context \<times> 'w goon_mem) option" where
  "process_loop code ctx m processed =
     (if goon_queue_is_empty (ctx_event_queue ctx) then Some (processed, ctx, m)
      else
        (case goon_queue_pop (m_events m) (ctx_event_queue ctx) of
           None \<Rightarrow> None
         | Some (None, h, q) \<Rightarrow> Some (processed, ctx\<lparr>ctx_event_queue := q\<rparr>, m\<lparr>m_events := h\<rparr>)
         | Some (Some e, h, q) \<Rightarrow>
            (case run_handlers code (ctx_handlers ctx) e (ctx\<lparr>ctx_event_queue := q\<rparr>)
                    (m\<lparr>m_events := h\<rparr>) of
               None \<Rightarrow> None
             | Some (ctx1, m1) \<Rightarrow>
                (case goon_event_destroy (Some e) m1 of
                   None \<Rightarrow> None
                 | Some m2 \<Rightarrow>
                    if 2147483647 \<le> processed then None
                    else
                      process_loop code
                        (ctx1\<lparr>ctx_total_events_processed := ctx_total_events_processed ctx1 + 1\<rparr>)
                        m2 (processed + 1)))))"
  by pat_completeness auto
termination
  by (relation "measure (\<lambda>(code, ctx, m, processed). nat (2147483647 - processed))") auto

declare process_loop.simps [simp del]

text \<open>\<^verbatim>\<open>goon_context_process_events(ctx)\<close>\<close>

definition goon_context_process_events ::
  "'w goon_code \<Rightarrow> goon_context \<Rightarrow> 'w goon_mem \<Rightarrow> (int \<times> goon_context \<times> 'w goon_mem) option" where
  "goon_context_process_events code ctx m =
     (if ctx_state ctx \<noteq> GOON_STATE_RUNNING then Some (GOON_ERROR, ctx, m)
      else process_loop code ctx m 0)"

text \<open>\<^verbatim>\<open>goon_start(ctx)\<close> and \<^verbatim>\<open>goon_stop(ctx)\<close>; the latter ignores what the process pass returns.\<close>

definition goon_start :: "goon_context \<Rightarrow> int \<times> goon_context" where
  "goon_start ctx = (GOON_SUCCESS, snd (goon_context_set_state ctx GOON_STATE_RUNNING))"

definition goon_stop ::
  "'w goon_code \<Rightarrow> goon_context \<Rightarrow> 'w goon_mem \<Rightarrow> (int \<times> goon_context \<times> 'w goon_mem) option" where
  "goon_stop code ctx m =
     (let ctx1 = snd (goon_context_set_state ctx GOON_STATE_STOPPING) in
      (case goon_context_process_events code ctx1 m of
         None \<Rightarrow> None
       | Some (r, ctx2, m2) \<Rightarrow>
          Some (GOON_SUCCESS, snd (goon_context_set_state ctx2 GOON_STATE_TERMINATED), m2)))"

text \<open>
  The registry as a list: \<open>h_path hs p as\<close> says that following \<^verbatim>\<open>next\<close> from \<open>p\<close> visits
  exactly the allocated handlers \<open>as\<close> and then reaches \<^verbatim>\<open>NULL\<close>.
\<close>

fun h_path :: "(addr \<Rightarrow> goon_handler option) \<Rightarrow> addr option \<Rightarrow> addr list \<Rightarrow> bool" where
  "h_path hs p [] \<longleftrightarrow> p = None"
| "h_path hs p (a # as) \<longleftrightarrow>
     p = Some a \<and> (case hs a of None \<Rightarrow> False | Some hv \<Rightarrow> h_path hs (h_next hv) as)"

text \<open>Whether the handler at an address is allocated and enabled.\<close>

definition handler_enabled :: "'w goon_mem \<Rightarrow> addr \<Rightarrow> bool" where
  "handler_enabled m a = (case m_handlers m a of None \<Rightarrow> False | Some hv \<Rightarrow> h_enabled hv)"

text \<open>
  The handler contract of the specification (sections 5 and 6), as far as the driver
  depends on it. A callback that is given an allocated event returns. It does not
  register or unregister a handler and does not free one: the head of the registry, and
  the link and the function pointer of every handler, are as before. It does not emit
  an event, clear the queue or free an event: the queue struct, and the link of every
  event, are as before. Everything else it may change: the state and the counters of the
  context, the flags, statistics and user data of the handlers, the contents of the
  events, the client's world; and it may allocate.
\<close>

definition handlers_kept :: "'w goon_mem \<Rightarrow> 'w goon_mem \<Rightarrow> bool" where
  "handlers_kept m m' \<longleftrightarrow>
     (\<forall>a hv. m_handlers m a = Some hv \<longrightarrow>
        (\<exists>hv'. m_handlers m' a = Some hv' \<and> h_next hv' = h_next hv \<and> h_func hv' = h_func hv))"

definition events_kept :: "'w goon_mem \<Rightarrow> 'w goon_mem \<Rightarrow> bool" where
  "events_kept m m' \<longleftrightarrow>
     (\<forall>b ev. m_events m b = Some ev \<longrightarrow>
        (\<exists>ev'. m_events m' b = Some ev' \<and> ev_next ev' = ev_next ev))"

definition dispatch_frame ::
  "goon_context \<Rightarrow> 'w goon_mem \<Rightarrow> goon_context \<Rightarrow> 'w goon_mem \<Rightarrow> bool" where
  "dispatch_frame ctx m ctx' m' \<longleftrightarrow>
     ctx_handlers ctx' = ctx_handlers ctx \<and> ctx_event_queue ctx' = ctx_event_queue ctx \<and>
     handlers_kept m m' \<and> events_kept m m'"

definition obeys_contract :: "'w goon_handler_func \<Rightarrow> bool" where
  "obeys_contract func \<longleftrightarrow>
     (\<forall>ctx e user_data m. m_events m e \<noteq> None \<longrightarrow>
        (\<exists>r ctx' m'. func ctx e user_data m = Some (r, ctx', m') \<and> dispatch_frame ctx m ctx' m'))"

text \<open>A callback that leaves the \<^verbatim>\<open>enabled\<close> flag of every handler as it is.\<close>

definition keeps_enabled :: "'w goon_handler_func \<Rightarrow> bool" where
  "keeps_enabled func \<longleftrightarrow>
     (\<forall>ctx e user_data m r ctx' m' a hv hv'.
        func ctx e user_data m = Some (r, ctx', m') \<and>
        m_handlers m a = Some hv \<and> m_handlers m' a = Some hv' \<longrightarrow>
        h_enabled hv' = h_enabled hv)"

text \<open>The statistics of a handler: its two counters and its average.\<close>

definition statistics :: "goon_handler \<Rightarrow> 64 word \<times> 64 word \<times> double" where
  "statistics hv = (h_call_count hv, h_error_count hv, h_avg_exec_time hv)"

text \<open>
  A callback that leaves the statistics of every handler as they are (it does not call
  \<^verbatim>\<open>goon_context_reset_statistics\<close>, for one).
\<close>

definition keeps_statistics :: "'w goon_handler_func \<Rightarrow> bool" where
  "keeps_statistics func \<longleftrightarrow>
     (\<forall>ctx e user_data m r ctx' m' a hv hv'.
        func ctx e user_data m = Some (r, ctx', m') \<and>
        m_handlers m a = Some hv \<and> m_handlers m' a = Some hv' \<longrightarrow>
        statistics hv' = statistics hv)"

text \<open>The callbacks of the handlers \<open>as\<close>, as the memory \<open>m\<close> has them, all have a property.\<close>

definition callbacks_are ::
  "('w goon_handler_func \<Rightarrow> bool) \<Rightarrow> 'w goon_code \<Rightarrow> 'w goon_mem \<Rightarrow> addr list \<Rightarrow> bool" where
  "callbacks_are P code m as \<longleftrightarrow>
     (\<forall>a\<in>set as. \<forall>hv. m_handlers m a = Some hv \<longrightarrow> P (code (h_func hv)))"

text \<open>
  The dispatch of one event in the words of the specification (sections 2, 4.7 and
  4.8): the handlers of the registry, here the list \<open>as\<close>, are visited in this order; a
  handler that is enabled when its turn comes is called with the context, the event and
  its user data, whatever the handlers before it returned, and the call is timed and
  entered into its statistics; a disabled handler is passed over.
\<close>

fun spec_dispatch ::
  "'w goon_code \<Rightarrow> addr list \<Rightarrow> addr \<Rightarrow> goon_context \<Rightarrow> 'w goon_mem \<Rightarrow>
   (goon_context \<times> 'w goon_mem) option" where
  "spec_dispatch code [] e ctx m = Some (ctx, m)"
| "spec_dispatch code (a # as) e ctx m =
     (case m_handlers m a of
        None \<Rightarrow> None
      | Some hv \<Rightarrow>
         if \<not> h_enabled hv then spec_dispatch code as e ctx m
         else
           (case code (h_func hv) ctx e (h_user_data hv) m of
              None \<Rightarrow> None
            | Some (result, ctx', m') \<Rightarrow>
               (case m_handlers m' a of
                  None \<Rightarrow> None
                | Some hv' \<Rightarrow>
                   (let elapsed = exec_time_ms (m_ticks m (m_reads m + 1) - m_ticks m (m_reads m))
                    in spec_dispatch code as e ctx'
                         (m'\<lparr>m_handlers := (m_handlers m')(a \<mapsto> handler_account hv' result elapsed),
                            m_ticks := m_ticks m,
                            m_reads := m_reads m + 2,
                            m_calls := m_calls m @
                              [\<lparr>k_handler = a, k_event = e, k_result = result,
                                k_exec_time = elapsed\<rparr>]\<rparr>)))))"

text \<open>
  A pass of the driver in the words of the specification: the events \<open>es\<close> are taken from
  the head of the queue one after the other; each is dispatched to the registry \<open>hs\<close>,
  then destroyed and counted.
\<close>

fun spec_pass ::
  "'w goon_code \<Rightarrow> addr list \<Rightarrow> addr list \<Rightarrow> goon_context \<Rightarrow> 'w goon_mem \<Rightarrow>
   (goon_context \<times> 'w goon_mem) option" where
  "spec_pass code hs [] ctx m = Some (ctx, m)"
| "spec_pass code hs (e # es) ctx m =
     (case goon_queue_pop (m_events m) (ctx_event_queue ctx) of
        None \<Rightarrow> None
      | Some (popped, h, q) \<Rightarrow>
         if popped \<noteq> Some e then None
         else
           (case spec_dispatch code hs e (ctx\<lparr>ctx_event_queue := q\<rparr>) (m\<lparr>m_events := h\<rparr>) of
              None \<Rightarrow> None
            | Some (ctx1, m1) \<Rightarrow>
               (case goon_event_destroy (Some e) m1 of
                  None \<Rightarrow> None
                | Some m2 \<Rightarrow>
                   spec_pass code hs es
                     (ctx1\<lparr>ctx_total_events_processed := ctx_total_events_processed ctx1 + 1\<rparr>)
                     m2)))"

text \<open>The invocations of one handler among a list of invocations.\<close>

definition calls_of :: "addr \<Rightarrow> goon_call list \<Rightarrow> goon_call list" where
  "calls_of a ks = filter (\<lambda>k. k_handler k = a) ks"

text \<open>The driver's accounting of a list of invocations, one after the other.\<close>

definition account_calls :: "goon_handler \<Rightarrow> goon_call list \<Rightarrow> goon_handler" where
  "account_calls hv ks = foldl (\<lambda>h k. handler_account h (k_result k) (k_exec_time k)) hv ks"

text \<open>
  The context after a pass that has drained \<open>n\<close> events, when no callback has changed it:
  the queue is empty and the total has grown by \<open>n\<close>.
\<close>

definition drained :: "goon_context \<Rightarrow> nat \<Rightarrow> goon_context" where
  "drained ctx n =
     ctx\<lparr>ctx_event_queue := (ctx_event_queue ctx)\<lparr>q_head := None, q_tail := None, q_size := 0\<rparr>,
         ctx_total_events_processed := ctx_total_events_processed ctx + of_nat n\<rparr>"

text \<open>
  Between two memories, every handler has kept its \<^verbatim>\<open>enabled\<close> flag; and every handler's
  statistics are the accounting of its invocations among \<open>ks\<close>.
\<close>

definition flags_kept :: "'w goon_mem \<Rightarrow> 'w goon_mem \<Rightarrow> bool" where
  "flags_kept m m' \<longleftrightarrow>
     (\<forall>b hv hv'. m_handlers m b = Some hv \<and> m_handlers m' b = Some hv' \<longrightarrow>
        h_enabled hv' = h_enabled hv)"

definition stats_accounted :: "'w goon_mem \<Rightarrow> 'w goon_mem \<Rightarrow> goon_call list \<Rightarrow> bool" where
  "stats_accounted m m' ks \<longleftrightarrow>
     (\<forall>b hv hv'. m_handlers m b = Some hv \<and> m_handlers m' b = Some hv' \<longrightarrow>
        statistics hv' = statistics (account_calls hv (calls_of b ks)))"

text \<open>
  What the dispatch of the event \<open>e\<close> to the handlers \<open>as\<close> does, when the callbacks obey
  the contract: the registry and the queue are kept, and the invocations \<open>ks\<close> it makes
  are all on \<open>e\<close>. If the callbacks leave the flags alone, the invocations are those of
  the enabled handlers in the order of \<open>as\<close>; if they leave the statistics alone, every
  handler's statistics are the accounting of its invocations.
\<close>

definition dispatch_post ::
  "'w goon_code \<Rightarrow> goon_context \<Rightarrow> 'w goon_mem \<Rightarrow> goon_context \<Rightarrow> 'w goon_mem \<Rightarrow>
   addr \<Rightarrow> addr list \<Rightarrow> goon_call list \<Rightarrow> bool" where
  "dispatch_post code ctx m ctx' m' e as ks \<longleftrightarrow>
     dispatch_frame ctx m ctx' m' \<and> m_ticks m' = m_ticks m \<and>
     m_calls m' = m_calls m @ ks \<and> (\<forall>k\<in>set ks. k_event k = e) \<and>
     (callbacks_are keeps_enabled code m as \<longrightarrow>
        map k_handler ks = filter (handler_enabled m) as \<and> flags_kept m m') \<and>
     (callbacks_are keeps_statistics code m as \<longrightarrow> stats_accounted m m' ks)"

text \<open>
  What a pass of the driver over the queued events \<open>es\<close>, with the registry \<open>hs\<close>, does
  when the callbacks obey the contract: the registry is kept and the queue is empty. If
  the callbacks leave the flags alone, the invocations are, event
  by event in queue order, those of the enabled handlers in registry order; if they
  leave the statistics alone, every handler's statistics are the accounting of its
  invocations.
\<close>

definition pass_post ::
  "'w goon_code \<Rightarrow> goon_context \<Rightarrow> 'w goon_mem \<Rightarrow> goon_context \<Rightarrow> 'w goon_mem \<Rightarrow>
   addr list \<Rightarrow> addr list \<Rightarrow> goon_call list \<Rightarrow> bool" where
  "pass_post code ctx m ctx' m' es hs ks \<longleftrightarrow>
     ctx_handlers ctx' = ctx_handlers ctx \<and>
     ctx_event_queue ctx' = (ctx_event_queue ctx)\<lparr>q_head := None, q_tail := None, q_size := 0\<rparr> \<and>
     handlers_kept m m' \<and> m_ticks m' = m_ticks m \<and> m_calls m' = m_calls m @ ks \<and>
     (callbacks_are keeps_enabled code m hs \<longrightarrow>
        map (\<lambda>k. (k_event k, k_handler k)) ks = List.product es (filter (handler_enabled m) hs) \<and>
        flags_kept m m') \<and>
     (callbacks_are keeps_statistics code m hs \<longrightarrow> stats_accounted m m' ks)"




section \<open>Event creation and the text form of an event\<close>

text \<open>
  \<^verbatim>\<open>goon_event_create(name, priority)\<close>. \<open>mem_ok\<close> tells whether \<^verbatim>\<open>malloc\<close> returned a block,
  \<open>next_id\<close> is the global \<^verbatim>\<open>g_next_event_id\<close>, returned incremented when an event was
  made, and \<open>now\<close> is what \<^verbatim>\<open>time(NULL)\<close> returns.
\<close>

definition goon_event_create ::
  "string \<Rightarrow> goon_priority_t \<Rightarrow> bool \<Rightarrow> 32 word \<Rightarrow> time_t \<Rightarrow> 'w goon_event option \<times> 32 word" where
  "goon_event_create name priority mem_ok next_id now =
     (if \<not> mem_ok then (None, next_id)
      else
        (Some \<lparr>ev_id = next_id, ev_name = name_copy name, ev_priority = priority,
               ev_timestamp = now, ev_data = None, ev_user_data = None, ev_next = None\<rparr>,
         next_id + 1))"

text \<open>
  What the C library prints for \<^verbatim>\<open>%u\<close>, \<^verbatim>\<open>%d\<close> and \<^verbatim>\<open>%ld\<close>: the decimal digits of the
  number, most significant first, after a minus sign if it is negative.
\<close>

definition digit_char :: "nat \<Rightarrow> char" where
  "digit_char d = char_of (48 + d)"

function dec_nat :: "nat \<Rightarrow> string" where
  "dec_nat n = (if n < 10 then [digit_char n] else dec_nat (n div 10) @ [digit_char (n mod 10)])"
  by pat_completeness auto
termination
  by (relation "measure (\<lambda>n. n)") auto

declare dec_nat.simps [simp del]

definition dec_int :: "int \<Rightarrow> string" where
  "dec_int i = (if i < 0 then CHR ''-'' # dec_nat (nat (- i)) else dec_nat (nat i))"

text \<open>
  The output of
  \<^verbatim>\<open>"EVENT{id:%u,name:%s,priority:%d,timestamp:%ld}"\<close>
  for \<^verbatim>\<open>event->id, event->name, event->priority, event->timestamp\<close>: the identifier is
  unsigned, the priority is printed as an \<^verbatim>\<open>int\<close> and the timestamp as a \<^verbatim>\<open>long\<close>.
\<close>

definition event_text :: "'w goon_event \<Rightarrow> string" where
  "event_text e =
     ''EVENT{id:'' @ dec_nat (unat (ev_id e)) @ '',name:'' @ ev_name e @
     '',priority:'' @ dec_int (sint (ev_priority e)) @
     '',timestamp:'' @ dec_int (sint (ev_timestamp e)) @ ''}''"

text \<open>
  \<^verbatim>\<open>goon_event_serialize(event, buffer, buffer_size)\<close>: the status, and the string the
  buffer holds afterwards (\<open>None\<close> when nothing was written). \<^verbatim>\<open>snprintf\<close> returns the length
  of the whole output and stores at most \<open>buffer_size - 1\<close> bytes of it. It returns a
  negative value only on an encoding error, which these conversions do not have.
\<close>

definition goon_event_serialize ::
  "'w goon_event option \<Rightarrow> bool \<Rightarrow> nat \<Rightarrow> int \<times> string option" where
  "goon_event_serialize event has_buffer buffer_size =
     (case event of
        None \<Rightarrow> (GOON_ERROR_NULL_PTR, None)
      | Some e \<Rightarrow>
         if \<not> has_buffer \<or> buffer_size = 0 then (GOON_ERROR_NULL_PTR, None)
         else
           (let written = length (event_text e) in
            if written \<ge> buffer_size
            then (GOON_ERROR_OVERFLOW, Some (take (buffer_size - 1) (event_text e)))
            else (GOON_SUCCESS, Some (event_text e))))"

text \<open>
  The directives of \<^verbatim>\<open>sscanf\<close> that \<^verbatim>\<open>goon_event_deserialize\<close> uses, after the C standard
  (7.21.6.2). Each takes the input left and returns what it converted and the input
  after it, or \<open>None\<close> on a matching failure.

  Ordinary characters of the format must be the next characters of the input.
\<close>

fun match_lit :: "string \<Rightarrow> string \<Rightarrow> string option" where
  "match_lit [] s = Some s"
| "match_lit (c # cs) [] = None"
| "match_lit (c # cs) (d # ds) = (if c = d then match_lit cs ds else None)"

text \<open>The white-space characters of \<^verbatim>\<open>isspace\<close> and the decimal digits.\<close>

definition is_space :: "char \<Rightarrow> bool" where
  "is_space c \<longleftrightarrow> c = CHR '' '' \<or> (9 \<le> (of_char c :: nat) \<and> (of_char c :: nat) \<le> 13)"

definition is_digit :: "char \<Rightarrow> bool" where
  "is_digit c \<longleftrightarrow> 48 \<le> (of_char c :: nat) \<and> (of_char c :: nat) \<le> 57"

definition digits_val :: "string \<Rightarrow> nat" where
  "digits_val ds = foldl (\<lambda>a c. 10 * a + (of_char c - 48)) 0 ds"

text \<open>
  \<^verbatim>\<open>%u\<close>, \<^verbatim>\<open>%d\<close> and \<^verbatim>\<open>%ld\<close>: white space is skipped, then an optional sign and a non-empty
  run of decimal digits are read. The result is the number read, as an integer.
\<close>

definition scan_int :: "string \<Rightarrow> (int \<times> string) option" where
  "scan_int s =
     (let s1 = dropWhile is_space s;
          neg = (s1 \<noteq> [] \<and> hd s1 = CHR ''-'');
          s2 = (if s1 \<noteq> [] \<and> (hd s1 = CHR ''-'' \<or> hd s1 = CHR ''+'') then tl s1 else s1);
          ds = takeWhile is_digit s2
      in if ds = [] then None
         else Some (if neg then - int (digits_val ds) else int (digits_val ds),
                    dropWhile is_digit s2))"

text \<open>
  \<^verbatim>\<open>%127[^,]\<close>: the longest run of at most 127 characters other than a comma, which must
  not be empty. White space is not skipped.
\<close>

definition scan_name :: "string \<Rightarrow> (string \<times> string) option" where
  "scan_name s =
     (let nm = takeWhile (\<lambda>c. c \<noteq> CHR '','') (take 127 s)
      in if nm = [] then None else Some (nm, drop (length nm) s))"

text \<open>
  \<^verbatim>\<open>sscanf(buffer, "EVENT{id:%u,name:%127[^,],priority:%d,timestamp:%ld}", &id, name, &priority, &timestamp)\<close>.
  The result is \<open>Some (Some (id, name, priority, timestamp))\<close> when all four conversions
  were made (\<^verbatim>\<open>parsed == 4\<close>; the closing brace after the last one does not count), and
  \<open>Some None\<close> when the input stopped matching before. A number that the object it is
  stored in cannot represent is undefined behaviour: the result is \<open>None\<close>.
\<close>

definition sscanf_event ::
  "string \<Rightarrow> (32 word \<times> string \<times> goon_priority_t \<times> time_t) option option" where
  "sscanf_event buffer =
     (case match_lit ''EVENT{id:'' buffer of
        None \<Rightarrow> Some None
      | Some r0 \<Rightarrow>
     (case scan_int r0 of
        None \<Rightarrow> Some None
      | Some (i, r1) \<Rightarrow>
         if \<not> (0 \<le> i \<and> i < 2 ^ 32) then None
         else
     (case match_lit '',name:'' r1 of
        None \<Rightarrow> Some None
      | Some r2 \<Rightarrow>
     (case scan_name r2 of
        None \<Rightarrow> Some None
      | Some (nm, r3) \<Rightarrow>
     (case match_lit '',priority:'' r3 of
        None \<Rightarrow> Some None
      | Some r4 \<Rightarrow>
     (case scan_int r4 of
        None \<Rightarrow> Some None
      | Some (p, r5) \<Rightarrow>
         if \<not> (- (2 ^ 31) \<le> p \<and> p < 2 ^ 31) then None
         else
     (case match_lit '',timestamp:'' r5 of
        None \<Rightarrow> Some None
      | Some r6 \<Rightarrow>
     (case scan_int r6 of
        None \<Rightarrow> Some None
      | Some (t, r7) \<Rightarrow>
         if \<not> (- (2 ^ 63) \<le> t \<and> t < 2 ^ 63) then None
         else Some (Some (word_of_int i, nm, word_of_int p, word_of_int t))))))))))"

text \<open>
  \<^verbatim>\<open>goon_event_deserialize(buffer)\<close>: the event made (\<open>None\<close> for \<^verbatim>\<open>NULL\<close>) and the global
  event counter afterwards.
\<close>

definition goon_event_deserialize ::
  "string option \<Rightarrow> bool \<Rightarrow> 32 word \<Rightarrow> time_t \<Rightarrow> ('w goon_event option \<times> 32 word) option" where
  "goon_event_deserialize buffer mem_ok next_id now =
     (case buffer of
        None \<Rightarrow> Some (None, next_id)
      | Some b \<Rightarrow>
         (case sscanf_event b of
            None \<Rightarrow> None
          | Some None \<Rightarrow> Some (None, next_id)
          | Some (Some (i, nm, p, t)) \<Rightarrow>
             (case goon_event_create nm p mem_ok next_id now of
                (None, g) \<Rightarrow> Some (None, g)
              | (Some ev, g) \<Rightarrow> Some (Some (ev\<lparr>ev_id := i, ev_timestamp := t\<rparr>), g))))"

text \<open>The next character of the input, if there is one, is not a decimal digit.\<close>

definition no_digit_ahead :: "string \<Rightarrow> bool" where
  "no_digit_ahead s \<longleftrightarrow> (case s of [] \<Rightarrow> True | c # cs \<Rightarrow> \<not> is_digit c)"

section \<open>Example states\<close>

text \<open>
  A full cache: 64 distinct keys (\<open>k\<close>, \<open>kk\<close>, ...), slot 0 written at time 7 and every
  other slot at time 5.
\<close>

definition ex_cache :: goon_cache where
  "ex_cache =
     \<lparr>c_keys = map (\<lambda>i. replicate (Suc i) CHR ''k'') [0..<64],
      c_values = replicate 64 (Some [0]),
      c_timestamps = 7 # replicate 63 5,
      c_sizes = replicate 64 1,
      c_count = 64\<rparr>"

text \<open>A key of 128 bytes, one more than a key slot holds.\<close>

definition ex_long_key :: string where
  "ex_long_key = replicate 128 CHR ''k''"

text \<open>A pool of capacity 3 that has handed out one object, still in use.\<close>

definition ex_pool :: goon_pool where
  "ex_pool = \<lparr>p_objects = [Some 10, None, None], p_in_use = [True, False, False],
              p_size = 1, p_capacity = 3\<rparr>"

text \<open>
  Events as \<^verbatim>\<open>goon_event_create\<close> leaves them (no payload, no link), in a world that is one
  counter.
\<close>

definition ex_event :: "32 word \<Rightarrow> string \<Rightarrow> nat goon_event" where
  "ex_event i name =
     \<lparr>ev_id = i, ev_name = name, ev_priority = GOON_PRIORITY_NORMAL,
      ev_timestamp = 1700000000, ev_data = None, ev_user_data = None, ev_next = None\<rparr>"

text \<open>Three events at the addresses 101, 102 and 103, and an empty queue that admits two.\<close>

definition ex_events :: "nat event_heap" where
  "ex_events = [101 \<mapsto> ex_event 1 ''hello'', 102 \<mapsto> ex_event 2 ''world'',
                  103 \<mapsto> ex_event 3 ''again'']"

definition ex_queue :: goon_queue where
  "ex_queue = \<lparr>q_head = None, q_tail = None, q_size = 0, q_max_size = 2\<rparr>"

text \<open>The same queue after the first two events have been pushed: it is full.\<close>

definition ex_events_linked :: "nat event_heap" where
  "ex_events_linked =
     [101 \<mapsto> (ex_event 1 ''hello'')\<lparr>ev_next := Some 102\<rparr>, 102 \<mapsto> ex_event 2 ''world'',
      103 \<mapsto> ex_event 3 ''again'']"

definition ex_queue_full :: goon_queue where
  "ex_queue_full = \<lparr>q_head = Some 101, q_tail = Some 102, q_size = 2, q_max_size = 2\<rparr>"

text \<open>
  Two callbacks, both acting on the client's world only: one counts the events it sees and
  succeeds, one doubles the counter and fails on every event. Their code is at the
  function pointers 502 and 501.
\<close>

definition ex_count :: "nat goon_handler_func" where
  "ex_count ctx e user_data m = Some (GOON_SUCCESS, ctx, m\<lparr>m_world := m_world m + 1\<rparr>)"

definition ex_reject :: "nat goon_handler_func" where
  "ex_reject ctx e user_data m = Some (GOON_ERROR, ctx, m\<lparr>m_world := 2 * m_world m\<rparr>)"

text \<open>
  A third callback, at the function pointer 503, goes through the context: it clears the
  statistics of every handler, as \<^verbatim>\<open>goon_context_reset_statistics\<close> does, and disables
  the handler its user data points to, as \<^verbatim>\<open>goon_handler_disable\<close> does.
\<close>

definition ex_meddle :: "nat goon_handler_func" where
  "ex_meddle ctx e user_data m =
     Some (GOON_SUCCESS, ctx,
           m\<lparr>m_handlers := (\<lambda>a. map_option
                  (\<lambda>hv. hv\<lparr>h_enabled := (h_enabled hv \<and> Some a \<noteq> user_data),
                           h_call_count := 0, h_error_count := 0, h_avg_exec_time := Num 0\<rparr>)
                  (m_handlers m a))\<rparr>)"

definition ex_code :: "nat goon_code" where
  "ex_code f = (if f = 501 then ex_reject else if f = 502 then ex_count
                else if f = 503 then ex_meddle
                else (\<lambda>ctx e user_data m. None))"

text \<open>A handler as \<^verbatim>\<open>goon_handler_create\<close> leaves it, but for the enabled flag.\<close>

definition ex_handler :: "32 word \<Rightarrow> string \<Rightarrow> fptr \<Rightarrow> bool \<Rightarrow> goon_handler" where
  "ex_handler i name f en =
     \<lparr>h_id = i, h_name = name, h_func = f, h_user_data = None, h_enabled = en,
      h_call_count = 0, h_error_count = 0, h_avg_exec_time = Num 0, h_next = None\<rparr>"

text \<open>
  A running context with one queued event (at 101) and no handler yet; three handlers are
  allocated at 10, 11 and 12, the last one disabled. Each reading of the clock is 1000
  ticks after the one before.
\<close>

definition ex_mem0 :: "nat goon_mem" where
  "ex_mem0 =
     \<lparr>m_events = [101 \<mapsto> ex_event 1 ''hello''],
      m_handlers = [10 \<mapsto> ex_handler 10 ''reject'' 501 True,
                    11 \<mapsto> ex_handler 11 ''count'' 502 True,
                    12 \<mapsto> ex_handler 12 ''mute'' 502 False],
      m_world = 0, m_ticks = (\<lambda>k. 1000 * int k), m_reads = 0, m_calls = []\<rparr>"

definition ex_ctx0 :: goon_context where
  "ex_ctx0 =
     \<lparr>ctx_id = 1, ctx_name = ''main_context'', ctx_state = GOON_STATE_RUNNING,
      ctx_handlers = None, ctx_handler_count = 0,
      ctx_event_queue = \<lparr>q_head = Some 101, q_tail = Some 101, q_size = 1, q_max_size = 1024\<rparr>,
      ctx_event_count = 1, ctx_total_events_processed = 0, ctx_start_time = 1700000000,
      ctx_debug_mode = False\<rparr>"

text \<open>The same after \<^verbatim>\<open>register(12); register(11); register(10)\<close>: the registry is 10, 11, 12.\<close>

definition ex_mem :: "nat goon_mem" where
  "ex_mem =
     ex_mem0\<lparr>m_handlers :=
       [10 \<mapsto> (ex_handler 10 ''reject'' 501 True)\<lparr>h_next := Some 11\<rparr>,
        11 \<mapsto> (ex_handler 11 ''count'' 502 True)\<lparr>h_next := Some 12\<rparr>,
        12 \<mapsto> ex_handler 12 ''mute'' 502 False]\<rparr>"

definition ex_ctx :: goon_context where
  "ex_ctx = ex_ctx0\<lparr>ctx_handlers := Some 10, ctx_handler_count := 3\<rparr>"

text \<open>
  The memory after one process pass from \<open>ex_ctx\<close> and \<open>ex_mem\<close>: the event is freed, the
  two enabled handlers have been called once, each call took 1 ms, the first failed; the
  counter was doubled first and incremented second.
\<close>

definition ex_mem_after :: "nat goon_mem" where
  "ex_mem_after =
     \<lparr>m_events = Map.empty,
      m_handlers =
       [10 \<mapsto> (ex_handler 10 ''reject'' 501 True)
               \<lparr>h_call_count := 1, h_error_count := 1, h_avg_exec_time := Num 1, h_next := Some 11\<rparr>,
        11 \<mapsto> (ex_handler 11 ''count'' 502 True)
               \<lparr>h_call_count := 1, h_avg_exec_time := Num 1, h_next := Some 12\<rparr>,
        12 \<mapsto> ex_handler 12 ''mute'' 502 False],
      m_world = 1, m_ticks = (\<lambda>k. 1000 * int k), m_reads = 4,
      m_calls = [\<lparr>k_handler = 10, k_event = 101, k_result = GOON_ERROR, k_exec_time = Num 1\<rparr>,
                 \<lparr>k_handler = 11, k_event = 101, k_result = GOON_SUCCESS, k_exec_time = Num 1\<rparr>]\<rparr>"











section \<open>Lemmas about the object pool\<close>

lemma pool_find_obj_Some:
  "pool_find_obj p a i = Some k \<Longrightarrow>
     i \<le> k \<and> k < p_size p \<and> p_objects p ! k = Some a \<and>
     (\<forall>j. i \<le> j \<and> j < k \<longrightarrow> p_objects p ! j \<noteq> Some a)"
proof (induction p a i rule: pool_find_obj.induct)
  case (1 p obj i)
  note unfold = pool_find_obj.simps [of p obj i]
  show ?case
  proof (cases "i < p_size p \<and> p_objects p ! i \<noteq> Some obj")
    case True
    with "1.prems" unfold have rec: "pool_find_obj p obj (Suc i) = Some k" by simp
    from "1.IH" [OF _ _ rec] True
    have IH: "Suc i \<le> k \<and> k < p_size p \<and> p_objects p ! k = Some obj \<and>
        (\<forall>j. Suc i \<le> j \<and> j < k \<longrightarrow> p_objects p ! j \<noteq> Some obj)" by simp
    have "p_objects p ! j \<noteq> Some obj" if "i \<le> j \<and> j < k" for j
      using that IH True by (cases "j = i") auto
    with IH show ?thesis by simp
  next
    case False
    with "1.prems" unfold show ?thesis by (auto split: if_splits)
  qed
qed

lemma pool_find_obj_first:
  "i \<le> k \<Longrightarrow> k < p_size p \<Longrightarrow> p_objects p ! k = Some a \<Longrightarrow>
   (\<forall>j. i \<le> j \<and> j < k \<longrightarrow> p_objects p ! j \<noteq> Some a) \<Longrightarrow> pool_find_obj p a i = Some k"
proof (induction p a i rule: pool_find_obj.induct)
  case (1 p obj i)
  note unfold = pool_find_obj.simps [of p obj i]
  show ?case
  proof (cases "i = k")
    case True
    with "1.prems" unfold show ?thesis by simp
  next
    case False
    with "1.prems" have lt: "i < p_size p" and ne: "p_objects p ! i \<noteq> Some obj" by auto
    from False "1.prems" have "pool_find_obj p obj (Suc i) = Some k"
      by (intro "1.IH" [OF lt ne]) auto
    with lt ne unfold show ?thesis by simp
  qed
qed

lemma pool_find_free_Some:
  "pool_find_free p i = Some k \<Longrightarrow>
     i \<le> k \<and> k < p_size p \<and> \<not> p_in_use p ! k \<and> p_objects p ! k \<noteq> None \<and>
     (\<forall>j. i \<le> j \<and> j < k \<longrightarrow> p_in_use p ! j \<or> p_objects p ! j = None)"
proof (induction p i rule: pool_find_free.induct)
  case (1 p i)
  note unfold = pool_find_free.simps [of p i]
  show ?case
  proof (cases "i < p_size p \<and> (p_in_use p ! i \<or> p_objects p ! i = None)")
    case True
    with "1.prems" unfold have rec: "pool_find_free p (Suc i) = Some k" by auto
    from True have "\<not> (\<not> p_in_use p ! i \<and> p_objects p ! i \<noteq> None)" by auto
    from "1.IH" [OF _ this rec] True
    have IH: "Suc i \<le> k \<and> k < p_size p \<and> \<not> p_in_use p ! k \<and> p_objects p ! k \<noteq> None \<and>
        (\<forall>j. Suc i \<le> j \<and> j < k \<longrightarrow> p_in_use p ! j \<or> p_objects p ! j = None)" by simp
    have "p_in_use p ! j \<or> p_objects p ! j = None" if "i \<le> j \<and> j < k" for j
      using that IH True by (cases "j = i") auto
    with IH show ?thesis by simp
  next
    case False
    with "1.prems" unfold show ?thesis by (auto split: if_splits)
  qed
qed

lemma pool_find_free_None:
  "pool_find_free p i = None \<Longrightarrow> i \<le> j \<Longrightarrow> j < p_size p \<Longrightarrow>
     p_in_use p ! j \<or> p_objects p ! j = None"
proof (induction p i rule: pool_find_free.induct)
  case (1 p i)
  note unfold = pool_find_free.simps [of p i]
  from "1.prems" have lt: "i < p_size p" by simp
  with "1.prems"(1) unfold have here: "\<not> (\<not> p_in_use p ! i \<and> p_objects p ! i \<noteq> None)"
    and rec: "pool_find_free p (Suc i) = None" by (auto split: if_splits)
  show ?case
  proof (cases "j = i")
    case True
    with here show ?thesis by auto
  next
    case False
    with "1.prems" have "Suc i \<le> j" by simp
    from "1.IH" [OF lt here rec this "1.prems"(3)] show ?thesis .
  qed
qed

lemma pool_find_free_first:
  "i \<le> k \<Longrightarrow> k < p_size p \<Longrightarrow> \<not> p_in_use p ! k \<Longrightarrow> p_objects p ! k \<noteq> None \<Longrightarrow>
   (\<forall>j. i \<le> j \<and> j < k \<longrightarrow> p_in_use p ! j \<or> p_objects p ! j = None) \<Longrightarrow>
   pool_find_free p i = Some k"
proof (induction p i rule: pool_find_free.induct)
  case (1 p i)
  note unfold = pool_find_free.simps [of p i]
  show ?case
  proof (cases "i = k")
    case True
    with "1.prems" unfold show ?thesis by simp
  next
    case False
    with "1.prems" have lt: "i < p_size p"
      and ne: "\<not> (\<not> p_in_use p ! i \<and> p_objects p ! i \<noteq> None)" by auto
    from False "1.prems" have "pool_find_free p (Suc i) = Some k"
      by (intro "1.IH" [OF lt ne]) auto
    with lt ne unfold show ?thesis by auto
  qed
qed

text \<open>What holds of the pool right after an acquire that returned an object.\<close>

lemma acquire_post:
  assumes wf: "pool_wf p" and acq: "goon_pool_acquire p n fresh = (Some a, p1)"
  shows "\<exists>k. k < p_size p1 \<and> p_objects p1 ! k = Some a \<and> p_in_use p1 ! k \<and>
            (\<forall>j<k. p_in_use p1 ! j \<or> p_objects p1 ! j = None) \<and> pool_wf p1"
proof (cases "pool_find_free p 0")
  case (Some k)
  from pool_find_free_Some [OF Some]
  have k: "k < p_size p" "p_objects p ! k \<noteq> None"
    and before: "\<forall>j<k. p_in_use p ! j \<or> p_objects p ! j = None" by auto
  from acq Some have p1: "p1 = p\<lparr>p_in_use := (p_in_use p)[k := True]\<rparr>"
    and a: "p_objects p ! k = Some a" by (auto simp: goon_pool_acquire_def)
  from wf k have len: "k < length (p_in_use p)" by (simp add: pool_wf_def)
  have "k < p_size p1 \<and> p_objects p1 ! k = Some a \<and> p_in_use p1 ! k \<and>
        (\<forall>j<k. p_in_use p1 ! j \<or> p_objects p1 ! j = None) \<and> pool_wf p1"
    using k a before len wf by (simp add: p1 pool_wf_def)
  then show ?thesis ..
next
  case None
  with acq have room: "p_size p < p_capacity p" and fresh: "fresh = Some a"
    and p1: "p1 = p\<lparr>p_objects := (p_objects p)[p_size p := Some a],
                    p_in_use := (p_in_use p)[p_size p := True],
                    p_size := p_size p + 1\<rparr>"
    by (auto simp: goon_pool_acquire_def split: if_splits option.splits)
  have before: "\<forall>j<p_size p. p_in_use p ! j \<or> p_objects p ! j = None"
    using pool_find_free_None [OF None] by simp
  have "p_size p < p_size p1 \<and> p_objects p1 ! (p_size p) = Some a \<and> p_in_use p1 ! (p_size p) \<and>
        (\<forall>j<p_size p. p_in_use p1 ! j \<or> p_objects p1 ! j = None) \<and> pool_wf p1"
    using room before wf by (simp add: p1 pool_wf_def)
  then show ?thesis ..
qed

section \<open>Lemmas about the recency cache\<close>

lemma cache_find_None:
  "(\<forall>j. i \<le> j \<and> j < n \<longrightarrow> ks ! j \<noteq> key) \<Longrightarrow> cache_find ks key i n = None"
proof (induction ks key i n rule: cache_find.induct)
  case (1 ks key i n)
  note unfold = cache_find.simps [of ks key i n]
  show ?case
  proof (cases "i < n")
    case True
    with "1.prems" have ne: "ks ! i \<noteq> key" by simp
    from "1.prems" have "cache_find ks key (Suc i) n = None"
      by (intro "1.IH" [OF True ne]) auto
    with True ne unfold show ?thesis by simp
  next
    case False
    with unfold show ?thesis by simp
  qed
qed

text \<open>
  The eviction scan returns the first slot of minimal timestamp: the loop invariant is
  that \<open>oi\<close> is the first minimal slot among those below \<open>i\<close>.
\<close>

lemma cache_oldest_first_min:
  assumes "i \<le> GOON_CACHE_SIZE" "oi < i" "ot = ts ! oi"
    and "\<forall>j<i. sint (ts ! oi) \<le> sint (ts ! j)"
    and "\<forall>j<oi. sint (ts ! oi) < sint (ts ! j)"
  shows "cache_oldest ts i oi ot < GOON_CACHE_SIZE \<and>
         (\<forall>j<GOON_CACHE_SIZE. sint (ts ! cache_oldest ts i oi ot) \<le> sint (ts ! j)) \<and>
         (\<forall>j<cache_oldest ts i oi ot. sint (ts ! cache_oldest ts i oi ot) < sint (ts ! j))"
  using assms
proof (induction ts i oi ot rule: cache_oldest.induct)
  case (1 ts i oi ot)
  note unfold = cache_oldest.simps [of ts i oi ot]
  show ?case
  proof (cases "i < GOON_CACHE_SIZE")
    case False
    with "1.prems" have "i = GOON_CACHE_SIZE" by simp
    with False "1.prems" unfold show ?thesis by simp
  next
    case lt: True
    show ?thesis
    proof (cases "sint (ts ! i) < sint ot")
      case True
      have a: "\<forall>j<Suc i. sint (ts ! i) \<le> sint (ts ! j)"
      proof (intro allI impI)
        fix j assume "j < Suc i"
        show "sint (ts ! i) \<le> sint (ts ! j)"
        proof (cases "j = i")
          case False
          with \<open>j < Suc i\<close> have "j < i" by simp
          with "1.prems"(4) have "sint (ts ! oi) \<le> sint (ts ! j)" by simp
          with True "1.prems"(3) show ?thesis by simp
        qed simp
      qed
      have b: "\<forall>j<i. sint (ts ! i) < sint (ts ! j)"
      proof (intro allI impI)
        fix j assume "j < i"
        with "1.prems"(4) have "sint (ts ! oi) \<le> sint (ts ! j)" by simp
        with True "1.prems"(3) show "sint (ts ! i) < sint (ts ! j)" by simp
      qed
      from lt have c: "Suc i \<le> GOON_CACHE_SIZE" by simp
      from "1.IH"(1) [OF lt True c _ refl a b] lt True unfold show ?thesis by simp
    next
      case False
      have a: "\<forall>j<Suc i. sint (ts ! oi) \<le> sint (ts ! j)"
      proof (intro allI impI)
        fix j assume "j < Suc i"
        show "sint (ts ! oi) \<le> sint (ts ! j)"
        proof (cases "j = i")
          case True
          with False "1.prems"(3) show ?thesis by simp
        next
          case False
          with \<open>j < Suc i\<close> have "j < i" by simp
          with "1.prems"(4) show ?thesis by simp
        qed
      qed
      from lt have c: "Suc i \<le> GOON_CACHE_SIZE" by simp
      from "1.prems"(2) have d: "oi < Suc i" by simp
      from "1.IH"(2) [OF lt False c d "1.prems"(3) a "1.prems"(5)] lt False unfold
      show ?thesis by simp
    qed
  qed
qed

lemma cache_oldest_start:
  "cache_oldest ts 1 0 (ts ! 0) < GOON_CACHE_SIZE \<and>
   (\<forall>j<GOON_CACHE_SIZE. sint (ts ! cache_oldest ts 1 0 (ts ! 0)) \<le> sint (ts ! j)) \<and>
   (\<forall>j<cache_oldest ts 1 0 (ts ! 0). sint (ts ! cache_oldest ts 1 0 (ts ! 0)) < sint (ts ! j))"
  by (rule cache_oldest_first_min) (simp_all add: GOON_CACHE_SIZE_def)

text \<open>On a full cache that does not hold the key, \<open>goon_cache_set\<close> takes the eviction branch.\<close>

lemma cache_set_full:
  assumes "GOON_CACHE_SIZE \<le> c_count c"
    and "\<forall>j<c_count c. c_keys c ! j \<noteq> key"
  shows "goon_cache_set c (Some key) (Some v) n mem_ok now =
         cache_store (c\<lparr>c_keys := (c_keys c)[cache_oldest (c_timestamps c) 1 0 (c_timestamps c ! 0)
                                                 := name_copy key]\<rparr>)
           (cache_oldest (c_timestamps c) 1 0 (c_timestamps c ! 0)) v n mem_ok now"
proof -
  from assms(2) have "cache_find (c_keys c) key 0 (c_count c) = None"
    by (intro cache_find_None) simp
  with assms(1) show ?thesis by (simp add: goon_cache_set_def Let_def)
qed

lemma ex_cache_wf: "cache_wf ex_cache \<and> c_count ex_cache = GOON_CACHE_SIZE"
  by (simp add: cache_wf_def ex_cache_def GOON_CACHE_SIZE_def)

lemma ex_cache_key_lengths: "s \<in> set (c_keys ex_cache) \<Longrightarrow> length s \<le> 64 \<and> set s \<subseteq> {CHR ''k''}"
  by (auto simp: ex_cache_def)

lemma ex_cache_timestamp: "j < 64 \<Longrightarrow> c_timestamps ex_cache ! j = (if j = 0 then 7 else 5)"
  by (simp add: ex_cache_def nth_Cons')

lemma ex_cache_oldest:
  "cache_oldest (c_timestamps ex_cache) 1 0 (c_timestamps ex_cache ! 0) = 1"
proof -
  define r where "r = cache_oldest (c_timestamps ex_cache) 1 0 (c_timestamps ex_cache ! 0)"
  from cache_oldest_start [of "c_timestamps ex_cache"]
  have r: "r < 64" and least: "\<forall>j<64. sint (c_timestamps ex_cache ! r) \<le> sint (c_timestamps ex_cache ! j)"
    and first: "\<forall>j<r. sint (c_timestamps ex_cache ! r) < sint (c_timestamps ex_cache ! j)"
    unfolding r_def GOON_CACHE_SIZE_def by blast+
  from least have "sint (c_timestamps ex_cache ! r) \<le> sint (c_timestamps ex_cache ! 1)" by simp
  with r have "r \<noteq> 0" by (auto simp: ex_cache_timestamp split: if_splits)
  moreover have "\<not> 1 < r"
  proof
    assume "1 < r"
    with first have "sint (c_timestamps ex_cache ! r) < sint (c_timestamps ex_cache ! 1)" by simp
    with r \<open>1 < r\<close> show False by (simp add: ex_cache_timestamp split: if_splits)
  qed
  ultimately have "r = 1" by simp
  then show ?thesis by (simp add: r_def)
qed

lemma ex_long_key_absent: "ex_long_key \<notin> set (c_keys ex_cache)"
  using ex_cache_key_lengths [of ex_long_key] by (auto simp: ex_long_key_def)

lemma ex_fresh_absent: "''fresh'' \<notin> set (c_keys ex_cache)"
  using ex_cache_key_lengths [of "''fresh''"] by auto

lemma in_set_update: "x \<in> set (xs[i := y]) \<Longrightarrow> x = y \<or> x \<in> set xs"
  using set_update_subset_insert [of xs i y] by auto

lemma ex_gone: "ex_long_key \<notin> set ((c_keys ex_cache)[1 := replicate 127 CHR ''k''])"
proof
  assume "ex_long_key \<in> set ((c_keys ex_cache)[1 := replicate 127 CHR ''k''])"
  from in_set_update [OF this] ex_long_key_absent
  have "ex_long_key = replicate 127 CHR ''k''" by blast
  then have "length ex_long_key = length (replicate 127 CHR ''k'')" by (rule arg_cong)
  then show False by (simp only: ex_long_key_def length_replicate)
qed

lemma ex_cache_absent:
  "k \<notin> set (c_keys ex_cache) \<Longrightarrow> \<forall>j<c_count ex_cache. c_keys ex_cache ! j \<noteq> k"
  using ex_cache_wf by (auto simp: cache_wf_def)

lemma ex_cache_set:
  assumes "k \<notin> set (c_keys ex_cache)"
  shows "goon_cache_set ex_cache (Some k) (Some v) n mem_ok now =
         cache_store (ex_cache\<lparr>c_keys := (c_keys ex_cache)[1 := name_copy k]\<rparr>) 1 v n mem_ok now"
proof -
  have full: "GOON_CACHE_SIZE \<le> c_count ex_cache" using ex_cache_wf by simp
  from cache_set_full [OF full ex_cache_absent [OF assms]] show ?thesis
    by (simp only: ex_cache_oldest)
qed

lemma name_copy_long: "name_copy ex_long_key = replicate 127 CHR ''k''"
  by (simp only: name_copy_def ex_long_key_def GOON_MAX_NAME_LEN_def take_replicate) simp

lemma name_copy_fresh: "name_copy ''fresh'' = ''fresh''"
  by (simp add: name_copy_def GOON_MAX_NAME_LEN_def)

section \<open>Lemmas about the event queue\<close>

lemma ev_path_upd_other:
  "a \<notin> set as \<Longrightarrow> ev_path (h(a := v)) p as = ev_path h p as"
  by (induction as arbitrary: p) (auto split: option.splits)

lemma ev_path_allocated: "ev_path h p as \<Longrightarrow> a \<in> set as \<Longrightarrow> h a \<noteq> None"
  by (induction as arbitrary: p) (auto split: option.splits)

lemma ev_path_Cons:
  "ev_path h p (a # as) \<longleftrightarrow> p = Some a \<and> (\<exists>ev. h a = Some ev \<and> ev_path h (ev_next ev) as)"
  by (simp split: option.splits)

lemma ev_path_link:
  "ev_path h p as \<Longrightarrow> distinct as \<Longrightarrow> as \<noteq> [] \<Longrightarrow> e \<notin> set as \<Longrightarrow>
   h (last as) = Some tv \<Longrightarrow> h e = Some ev \<Longrightarrow> ev_next ev = None \<Longrightarrow>
   ev_path (h(last as \<mapsto> tv\<lparr>ev_next := Some e\<rparr>)) p (as @ [e])"
proof (induction as arbitrary: p)
  case Nil
  then show ?case by simp
next
  case (Cons a as)
  show ?case
  proof (cases "as = []")
    case True
    with Cons.prems show ?thesis by (auto split: option.splits)
  next
    case False
    from Cons.prems(1) obtain av where av: "p = Some a" "h a = Some av"
      and rest: "ev_path h (ev_next av) as" by (auto split: option.splits)
    from False Cons.prems have last: "last (a # as) = last as" and ne: "last as \<noteq> a"
      by auto
    from Cons.prems False last
    have "ev_path (h(last as \<mapsto> tv\<lparr>ev_next := Some e\<rparr>)) (ev_next av) (as @ [e])"
      by (intro Cons.IH [OF rest]) auto
    then have "ev_path (h(last (a # as) \<mapsto> tv\<lparr>ev_next := Some e\<rparr>)) (ev_next av) (as @ [e])"
      by (simp only: last)
    moreover have "(h(last (a # as) \<mapsto> tv\<lparr>ev_next := Some e\<rparr>)) a = Some av"
      using ne av by (simp only: last fun_upd_other)
    ultimately show ?thesis using av(1) unfolding append_Cons ev_path_Cons by blast
  qed
qed

lemma queue_inv_size:
  "queue_inv h q as \<Longrightarrow> unat (q_size q) = length as"
  by (simp add: queue_inv_def unat_of_nat)

text \<open>A push onto a queue with room appends the event; no event is allocated or freed.\<close>

lemma push_inv:
  assumes inv: "queue_inv h q as" and new: "e \<notin> set as" and alloc: "h e = Some ev"
    and room: "q_size q < q_max_size q"
  shows "\<exists>h' q'. goon_queue_push h q (Some e) = Some (GOON_SUCCESS, h', q') \<and>
           queue_inv h' q' (as @ [e]) \<and> dom h' = dom h \<and> q_max_size q' = q_max_size q \<and>
           (\<forall>a v. h a = Some v \<longrightarrow> (\<exists>n. h' a = Some (v\<lparr>ev_next := n\<rparr>)))"
proof -
  define h1 where "h1 = h(e \<mapsto> ev\<lparr>ev_next := None\<rparr>)"
  from inv have path: "ev_path h (q_head q) as" and dist: "distinct as"
    and tail: "q_tail q = (if as = [] then None else Some (last as))"
    and size: "q_size q = of_nat (length as)" by (simp_all add: queue_inv_def)
  from new have path1: "ev_path h1 (q_head q) as"
    unfolding h1_def using path by (simp add: ev_path_upd_other)
  from room have "unat (q_size q) < unat (q_max_size q)" by (simp add: word_less_nat_alt)
  moreover have "unat (q_max_size q) < 2 ^ 64" using unsigned_less [of "q_max_size q"] by simp
  ultimately have len: "length (as @ [e]) < 2 ^ 64"
    using queue_inv_size [OF inv] by simp
  have size': "q_size q + 1 = of_nat (length (as @ [e]))" by (simp add: size)
  from room have nofull: "\<not> q_max_size q \<le> q_size q" by simp
  have keep: "\<exists>n. h1 a = Some (v\<lparr>ev_next := n\<rparr>)" if "h a = Some v" for a v
  proof (cases "a = e")
    case True with that alloc show ?thesis by (auto simp: h1_def)
  next
    case False
    have "v\<lparr>ev_next := ev_next v\<rparr> = v" by simp
    with False that show ?thesis unfolding h1_def by (metis fun_upd_other)
  qed
  show ?thesis
  proof (cases "as = []")
    case True
    with path tail have hd: "q_head q = None" and tl: "q_tail q = None" by simp_all
    let ?q = "q\<lparr>q_head := Some e, q_tail := Some e, q_size := q_size q + 1\<rparr>"
    have run: "goon_queue_push h q (Some e) = Some (GOON_SUCCESS, h1, ?q)"
      using nofull alloc tl by (simp add: goon_queue_push_def h1_def Let_def)
    have "queue_inv h1 ?q (as @ [e])"
      using True size' len by (simp add: queue_inv_def h1_def)
    moreover have "dom h1 = dom h" using alloc by (auto simp: h1_def)
    ultimately show ?thesis using run keep by auto
  next
    case False
    with tail have tl: "q_tail q = Some (last as)" by simp
    from False have "last as \<in> set as" by simp
    with path1 ev_path_allocated obtain tv where tv: "h1 (last as) = Some tv" by fastforce
    define h2 where "h2 = h1(last as \<mapsto> tv\<lparr>ev_next := Some e\<rparr>)"
    let ?q = "q\<lparr>q_tail := Some e, q_size := q_size q + 1\<rparr>"
    have run: "goon_queue_push h q (Some e) = Some (GOON_SUCCESS, h2, ?q)"
      using nofull alloc tl tv
      by (simp add: goon_queue_push_def h1_def [symmetric] h2_def Let_def)
    have e1: "h1 e = Some (ev\<lparr>ev_next := None\<rparr>)" by (simp add: h1_def)
    have e2: "ev_next (ev\<lparr>ev_next := None\<rparr>) = None" by simp
    have "ev_path h2 (q_head q) (as @ [e])"
      unfolding h2_def by (rule ev_path_link [OF path1 dist False new tv e1 e2])
    then have "queue_inv h2 ?q (as @ [e])"
      using dist new size' len by (simp add: queue_inv_def)
    moreover have "last as \<noteq> e" using \<open>last as \<in> set as\<close> new by auto
    then have "dom h2 = dom h" using alloc tv by (auto simp: h1_def h2_def)
    moreover have "\<exists>n. h2 a = Some (v\<lparr>ev_next := n\<rparr>)" if "h a = Some v" for a v
    proof (cases "a = last as")
      case True
      from keep [OF that] obtain n where "h1 a = Some (v\<lparr>ev_next := n\<rparr>)" ..
      with True tv show ?thesis by (auto simp: h2_def)
    next
      case False
      with keep [OF that] show ?thesis by (simp add: h2_def)
    qed
    ultimately show ?thesis using run by auto
  qed
qed

lemma pop_inv:
  assumes inv: "queue_inv h q (a # as)"
  shows "\<exists>h' q'. goon_queue_pop h q = Some (Some a, h', q') \<and> queue_inv h' q' as \<and>
           dom h' = dom h \<and> q_max_size q' = q_max_size q \<and>
           (\<forall>b v. h b = Some v \<longrightarrow> (\<exists>n. h' b = Some (v\<lparr>ev_next := n\<rparr>)))"
proof -
  from inv obtain ev where hd: "q_head q = Some a" and ev: "h a = Some ev"
    and rest: "ev_path h (ev_next ev) as" and dist: "distinct (a # as)"
    and tail: "q_tail q = Some (last (a # as))"
    and size: "q_size q = of_nat (length (a # as))" and len: "length (a # as) < 2 ^ 64"
    by (auto simp: queue_inv_def split: option.splits)
  define h' where "h' = h(a \<mapsto> ev\<lparr>ev_next := None\<rparr>)"
  define q' where "q' = q\<lparr>q_head := ev_next ev,
                     q_tail := (if ev_next ev = None then None else q_tail q),
                     q_size := q_size q - 1\<rparr>"
  have run: "goon_queue_pop h q = Some (Some a, h', q')"
    using hd ev by (simp add: goon_queue_pop_def h'_def q'_def)
  from dist have "a \<notin> set as" by simp
  then have path': "ev_path h' (ev_next ev) as"
    unfolding h'_def using rest by (simp add: ev_path_upd_other)
  have nxt: "ev_next ev = None \<longleftrightarrow> as = []"
    using rest by (cases as) auto
  have "queue_inv h' q' as"
    using path' dist tail size len nxt by (auto simp: queue_inv_def q'_def)
  moreover have "dom h' = dom h" using ev by (auto simp: h'_def)
  moreover have "\<exists>n. h' b = Some (v\<lparr>ev_next := n\<rparr>)" if "h b = Some v" for b v
  proof (cases "b = a")
    case True with that ev show ?thesis by (auto simp: h'_def)
  next
    case False
    have "v\<lparr>ev_next := ev_next v\<rparr> = v" by simp
    with False that show ?thesis unfolding h'_def by (metis fun_upd_other)
  qed
  ultimately show ?thesis using run by (auto simp: q'_def)
qed

lemma pop_empty:
  "queue_inv h q [] \<Longrightarrow> goon_queue_pop h q = Some (None, h, q)"
  by (simp add: queue_inv_def goon_queue_pop_def)

lemma only_links_changed_refl: "only_links_changed h h"
proof -
  have "\<exists>n. h a = Some (v\<lparr>ev_next := n\<rparr>)" if "h a = Some v" for a v
  proof -
    have "v\<lparr>ev_next := ev_next v\<rparr> = v" by simp
    with that show ?thesis by metis
  qed
  then show ?thesis by (simp add: only_links_changed_def)
qed

lemma only_links_changed_trans:
  assumes "only_links_changed h h1" "only_links_changed h1 h2"
  shows "only_links_changed h h2"
proof -
  have "\<exists>n. h2 a = Some (v\<lparr>ev_next := n\<rparr>)" if "h a = Some v" for a v
  proof -
    from assms(1) that obtain n where "h1 a = Some (v\<lparr>ev_next := n\<rparr>)"
      unfolding only_links_changed_def by blast
    with assms(2) obtain n' where "h2 a = Some (v\<lparr>ev_next := n, ev_next := n'\<rparr>)"
      unfolding only_links_changed_def by blast
    then show ?thesis by auto
  qed
  with assms show ?thesis by (simp add: only_links_changed_def)
qed

lemma push_all_inv:
  "queue_inv h q as \<Longrightarrow> distinct es \<Longrightarrow> set es \<inter> set as = {} \<Longrightarrow> set es \<subseteq> dom h \<Longrightarrow>
   length as + length es \<le> unat (q_max_size q) \<Longrightarrow>
   \<exists>h1 q1. push_all h q es = Some (replicate (length es) GOON_SUCCESS, h1, q1) \<and>
           queue_inv h1 q1 (as @ es) \<and> only_links_changed h h1"
proof (induction es arbitrary: h q as)
  case Nil
  then show ?case by (simp add: only_links_changed_refl)
next
  case (Cons e es)
  from Cons.prems obtain ev where ev: "h e = Some ev" by auto
  from Cons.prems have new: "e \<notin> set as" by auto
  from Cons.prems(5) queue_inv_size [OF Cons.prems(1)]
  have "unat (q_size q) < unat (q_max_size q)" by simp
  then have room: "q_size q < q_max_size q" by (simp add: word_less_nat_alt)
  from push_inv [OF Cons.prems(1) new ev room] obtain h' q' where
    push: "goon_queue_push h q (Some e) = Some (GOON_SUCCESS, h', q')"
    and inv': "queue_inv h' q' (as @ [e])" and dom': "dom h' = dom h"
    and max': "q_max_size q' = q_max_size q"
    and keep: "\<forall>a v. h a = Some v \<longrightarrow> (\<exists>n. h' a = Some (v\<lparr>ev_next := n\<rparr>))" by blast
  from dom' keep have step: "only_links_changed h h'" by (simp add: only_links_changed_def)
  have "\<exists>h1 q1. push_all h' q' es = Some (replicate (length es) GOON_SUCCESS, h1, q1) \<and>
           queue_inv h1 q1 ((as @ [e]) @ es) \<and> only_links_changed h' h1"
    using Cons.prems dom' max' by (intro Cons.IH [OF inv']) auto
  then obtain h1 q1 where
    rest: "push_all h' q' es = Some (replicate (length es) GOON_SUCCESS, h1, q1)"
    and inv1: "queue_inv h1 q1 (as @ e # es)" and step1: "only_links_changed h' h1" by auto
  from push rest have "push_all h q (e # es) = Some (replicate (length (e # es)) GOON_SUCCESS, h1, q1)"
    by simp
  with inv1 only_links_changed_trans [OF step step1] show ?case by blast
qed

lemma pop_n_inv:
  "queue_inv h q as \<Longrightarrow>
   \<exists>h1 q1. pop_n (length as) h q = Some (map Some as, h1, q1) \<and> queue_inv h1 q1 [] \<and>
           only_links_changed h h1"
proof (induction as arbitrary: h q)
  case Nil
  then show ?case by (simp add: only_links_changed_refl)
next
  case (Cons a as)
  from pop_inv [OF Cons.prems] obtain h' q' where
    pop: "goon_queue_pop h q = Some (Some a, h', q')" and inv': "queue_inv h' q' as"
    and dom': "dom h' = dom h"
    and keep: "\<forall>b v. h b = Some v \<longrightarrow> (\<exists>n. h' b = Some (v\<lparr>ev_next := n\<rparr>))" by blast
  from dom' keep have step: "only_links_changed h h'" by (simp add: only_links_changed_def)
  from Cons.IH [OF inv'] obtain h1 q1 where
    rest: "pop_n (length as) h' q' = Some (map Some as, h1, q1)"
    and inv1: "queue_inv h1 q1 []" and step1: "only_links_changed h' h1" by blast
  from pop rest have "pop_n (length (a # as)) h q = Some (map Some (a # as), h1, q1)" by simp
  with inv1 only_links_changed_trans [OF step step1] show ?case by blast
qed

section \<open>Lemmas about double-precision arithmetic\<close>









section \<open>Lemmas about the driver\<close>

subsection \<open>Paths\<close>

lemma h_path_Cons:
  "h_path hs p (a # as) \<longleftrightarrow> p = Some a \<and> (\<exists>hv. hs a = Some hv \<and> h_path hs (h_next hv) as)"
  by (simp split: option.splits)

lemma h_path_allocated: "h_path hs p as \<Longrightarrow> a \<in> set as \<Longrightarrow> hs a \<noteq> None"
  by (induction as arbitrary: p) (auto split: option.splits)

text \<open>A path depends on the links of its handlers only.\<close>

lemma h_path_cong:
  "(\<And>a. a \<in> set as \<Longrightarrow> map_option h_next (hs' a) = map_option h_next (hs a)) \<Longrightarrow>
   h_path hs' p as = h_path hs p as"
proof (induction as arbitrary: p)
  case Nil
  show ?case by simp
next
  case (Cons a as)
  have a: "map_option h_next (hs' a) = map_option h_next (hs a)" by (rule Cons.prems) simp
  have rest: "h_path hs' p' as = h_path hs p' as" for p'
    by (rule Cons.IH) (simp add: Cons.prems)
  show ?case
  proof (cases "hs a")
    case None
    with a have "hs' a = None" by simp
    with None show ?thesis by simp
  next
    case (Some hv)
    with a obtain hv' where "hs' a = Some hv'" "h_next hv' = h_next hv" by auto
    with Some rest show ?thesis by simp
  qed
qed

lemma ev_path_cong:
  "(\<And>a. a \<in> set as \<Longrightarrow> h' a = h a) \<Longrightarrow> ev_path h' p as = ev_path h p as"
  by (induction as arbitrary: p) (auto split: option.splits)

lemma ev_path_links:
  "(\<And>a. a \<in> set as \<Longrightarrow> map_option ev_next (h' a) = map_option ev_next (h a)) \<Longrightarrow>
   ev_path h' p as = ev_path h p as"
proof (induction as arbitrary: p)
  case Nil
  show ?case by simp
next
  case (Cons a as)
  have a: "map_option ev_next (h' a) = map_option ev_next (h a)" by (rule Cons.prems) simp
  have rest: "ev_path h' p' as = ev_path h p' as" for p'
    by (rule Cons.IH) (simp add: Cons.prems)
  show ?case
  proof (cases "h a")
    case None
    with a have "h' a = None" by simp
    with None show ?thesis by simp
  next
    case (Some ev)
    with a obtain ev' where "h' a = Some ev'" "ev_next ev' = ev_next ev" by auto
    with Some rest show ?thesis by simp
  qed
qed

subsection \<open>What a callback keeps\<close>

lemma handlers_kept_refl: "handlers_kept m m"
  by (simp add: handlers_kept_def)

lemma handlers_kept_trans:
  assumes "handlers_kept m m1" "handlers_kept m1 m2"
  shows "handlers_kept m m2"
  unfolding handlers_kept_def
proof (intro allI impI)
  fix a hv assume "m_handlers m a = Some hv"
  with assms(1) obtain hv1 where 1: "m_handlers m1 a = Some hv1" "h_next hv1 = h_next hv"
    "h_func hv1 = h_func hv" unfolding handlers_kept_def by blast
  from assms(2) 1(1) obtain hv2 where 2: "m_handlers m2 a = Some hv2" "h_next hv2 = h_next hv1"
    "h_func hv2 = h_func hv1" unfolding handlers_kept_def by blast
  from 1 2 show "\<exists>hv'. m_handlers m2 a = Some hv' \<and> h_next hv' = h_next hv \<and> h_func hv' = h_func hv"
    by simp
qed

lemma events_kept_refl: "events_kept m m"
  by (simp add: events_kept_def)

lemma events_kept_trans:
  assumes "events_kept m m1" "events_kept m1 m2"
  shows "events_kept m m2"
  unfolding events_kept_def
proof (intro allI impI)
  fix b ev assume "m_events m b = Some ev"
  with assms(1) obtain ev1 where 1: "m_events m1 b = Some ev1" "ev_next ev1 = ev_next ev"
    unfolding events_kept_def by blast
  from assms(2) 1(1) obtain ev2 where 2: "m_events m2 b = Some ev2" "ev_next ev2 = ev_next ev1"
    unfolding events_kept_def by blast
  from 1 2 show "\<exists>ev'. m_events m2 b = Some ev' \<and> ev_next ev' = ev_next ev" by simp
qed

lemma dispatch_frame_refl: "dispatch_frame ctx m ctx m"
  by (simp add: dispatch_frame_def handlers_kept_refl events_kept_refl)

lemma dispatch_frame_trans:
  "dispatch_frame ctx m ctx1 m1 \<Longrightarrow> dispatch_frame ctx1 m1 ctx2 m2 \<Longrightarrow> dispatch_frame ctx m ctx2 m2"
  unfolding dispatch_frame_def
  by (auto intro: handlers_kept_trans events_kept_trans)

lemma handlers_kept_links:
  assumes "handlers_kept m m'" "m_handlers m a \<noteq> None"
  shows "map_option h_next (m_handlers m' a) = map_option h_next (m_handlers m a)"
proof -
  from assms(2) obtain hv where hv: "m_handlers m a = Some hv" by auto
  with assms(1) obtain hv' where "m_handlers m' a = Some hv'" "h_next hv' = h_next hv"
    unfolding handlers_kept_def by blast
  with hv show ?thesis by simp
qed

lemma events_kept_links:
  assumes "events_kept m m'" "m_events m a \<noteq> None"
  shows "map_option ev_next (m_events m' a) = map_option ev_next (m_events m a)"
proof -
  from assms(2) obtain ev where ev: "m_events m a = Some ev" by auto
  with assms(1) obtain ev' where "m_events m' a = Some ev'" "ev_next ev' = ev_next ev"
    unfolding events_kept_def by blast
  with ev show ?thesis by simp
qed

lemma handlers_kept_path:
  assumes "handlers_kept m m'" "h_path (m_handlers m) p as"
  shows "h_path (m_handlers m') p as"
proof -
  have "h_path (m_handlers m') p as = h_path (m_handlers m) p as"
    by (rule h_path_cong) (simp add: handlers_kept_links [OF assms(1)] h_path_allocated [OF assms(2)])
  with assms(2) show ?thesis by simp
qed

lemma handlers_kept_callbacks:
  assumes "handlers_kept m m'" "callbacks_are P code m as" "set as \<subseteq> dom (m_handlers m)"
  shows "callbacks_are P code m' as"
  unfolding callbacks_are_def
proof (intro ballI allI impI)
  fix a hv' assume a: "a \<in> set as" and hv': "m_handlers m' a = Some hv'"
  from a assms(3) obtain hv where hv: "m_handlers m a = Some hv" by auto
  with assms(1) obtain hv1 where "m_handlers m' a = Some hv1" "h_func hv1 = h_func hv"
    unfolding handlers_kept_def by blast
  with hv' have "h_func hv' = h_func hv" by simp
  moreover from assms(2) a hv have "P (code (h_func hv))" by (simp add: callbacks_are_def)
  ultimately show "P (code (h_func hv'))" by simp
qed

lemma callbacks_are_Cons:
  "callbacks_are P code m (a # as) \<Longrightarrow> callbacks_are P code m as"
  "callbacks_are P code m (a # as) \<Longrightarrow> m_handlers m a = Some hv \<Longrightarrow> P (code (h_func hv))"
  by (simp_all add: callbacks_are_def)

subsection \<open>One invocation\<close>

lemma handler_account_fields:
  "h_next (handler_account hv r x) = h_next hv"
  "h_enabled (handler_account hv r x) = h_enabled hv"
  "h_func (handler_account hv r x) = h_func hv"
  "h_user_data (handler_account hv r x) = h_user_data hv"
  "h_id (handler_account hv r x) = h_id hv"
  "h_name (handler_account hv r x) = h_name hv"
  by (simp_all add: handler_account_def Let_def)

lemma handler_account_statistics:
  "statistics hv1 = statistics hv2 \<Longrightarrow>
   statistics (handler_account hv1 r x) = statistics (handler_account hv2 r x)"
  by (simp add: statistics_def handler_account_def Let_def)

lemma calls_of_simps:
  "calls_of a [] = []"
  "calls_of a (k # ks) = (if k_handler k = a then k # calls_of a ks else calls_of a ks)"
  "calls_of a (ks @ ks') = calls_of a ks @ calls_of a ks'"
  by (simp_all add: calls_of_def)

lemma account_calls_simps:
  "account_calls hv [] = hv"
  "account_calls hv (k # ks) = account_calls (handler_account hv (k_result k) (k_exec_time k)) ks"
  "account_calls hv (ks @ ks') = account_calls (account_calls hv ks) ks'"
  by (simp_all add: account_calls_def)

lemma account_calls_statistics:
  "statistics hv1 = statistics hv2 \<Longrightarrow>
   statistics (account_calls hv1 ks) = statistics (account_calls hv2 ks)"
proof (induction ks arbitrary: hv1 hv2)
  case Nil
  then show ?case by (simp add: account_calls_simps)
next
  case (Cons k ks)
  from Cons.prems
  have "statistics (handler_account hv1 (k_result k) (k_exec_time k)) =
        statistics (handler_account hv2 (k_result k) (k_exec_time k))"
    by (rule handler_account_statistics)
  then have "statistics (account_calls (handler_account hv1 (k_result k) (k_exec_time k)) ks) =
             statistics (account_calls (handler_account hv2 (k_result k) (k_exec_time k)) ks)"
    by (rule Cons.IH)
  then show ?case by (simp only: account_calls_simps)
qed

text \<open>
  One invocation of a callback that obeys the contract: the call the code makes, the
  memory \<open>m1\<close> after the accounting, and what it keeps.
\<close>

lemma invoke_handler_obeys:
  assumes hv: "m_handlers m a = Some hv" and ev: "m_events m e \<noteq> None"
    and ob: "obeys_contract (code (h_func hv))"
  shows "\<exists>r ctx1 m0 hv0 m1.
      code (h_func hv) ctx e (h_user_data hv) m = Some (r, ctx1, m0) \<and>
      m_handlers m0 a = Some hv0 \<and>
      m1 = m0\<lparr>m_handlers := (m_handlers m0)(a \<mapsto> handler_account hv0 r
                   (exec_time_ms (m_ticks m (m_reads m + 1) - m_ticks m (m_reads m)))),
              m_ticks := m_ticks m, m_reads := m_reads m + 2,
              m_calls := m_calls m @
                [\<lparr>k_handler = a, k_event = e, k_result = r,
                  k_exec_time = exec_time_ms (m_ticks m (m_reads m + 1) - m_ticks m (m_reads m))\<rparr>]\<rparr> \<and>
      invoke_handler code a e ctx m = Some (ctx1, m1) \<and>
      dispatch_frame ctx m ctx1 m0 \<and> dispatch_frame ctx m ctx1 m1"
proof -
  from ob ev obtain r ctx1 m0 where
    call: "code (h_func hv) ctx e (h_user_data hv) m = Some (r, ctx1, m0)"
    and frame0: "dispatch_frame ctx m ctx1 m0"
    unfolding obeys_contract_def by blast
  from frame0 have "handlers_kept m m0" by (simp add: dispatch_frame_def)
  with hv obtain hv0 where hv0: "m_handlers m0 a = Some hv0"
    unfolding handlers_kept_def by blast
  define x where "x = exec_time_ms (m_ticks m (m_reads m + 1) - m_ticks m (m_reads m))"
  define m1 where "m1 = m0\<lparr>m_handlers := (m_handlers m0)(a \<mapsto> handler_account hv0 r x),
              m_ticks := m_ticks m, m_reads := m_reads m + 2,
              m_calls := m_calls m @
                [\<lparr>k_handler = a, k_event = e, k_result = r, k_exec_time = x\<rparr>]\<rparr>"
  have inv: "invoke_handler code a e ctx m = Some (ctx1, m1)"
    using hv call hv0 by (simp add: invoke_handler_def Let_def m1_def x_def)
  have "handlers_kept m0 m1"
    unfolding handlers_kept_def
  proof (intro allI impI)
    fix b hvb assume b: "m_handlers m0 b = Some hvb"
    show "\<exists>hv'. m_handlers m1 b = Some hv' \<and> h_next hv' = h_next hvb \<and> h_func hv' = h_func hvb"
    proof (cases "b = a")
      case True
      with b hv0 have "hvb = hv0" by simp
      with True show ?thesis by (simp add: m1_def handler_account_fields)
    next
      case False
      with b show ?thesis by (simp add: m1_def)
    qed
  qed
  moreover have "events_kept m0 m1"
    unfolding events_kept_def by (simp add: m1_def)
  ultimately have "dispatch_frame ctx1 m0 ctx1 m1" by (simp add: dispatch_frame_def)
  with frame0 have frame1: "dispatch_frame ctx m ctx1 m1" by (rule dispatch_frame_trans)
  from call hv0 inv frame0 frame1 show ?thesis
    unfolding m1_def x_def by (iprover intro: exI conjI refl)
qed

lemma flags_kept_refl: "flags_kept m m"
  by (auto simp: flags_kept_def)

lemma flags_kept_trans:
  assumes "flags_kept m m1" "flags_kept m1 m2" "handlers_kept m m1"
  shows "flags_kept m m2"
  unfolding flags_kept_def
proof (intro allI impI, elim conjE)
  fix b hv hv2 assume b: "m_handlers m b = Some hv" and b2: "m_handlers m2 b = Some hv2"
  from assms(3) b obtain hv1 where b1: "m_handlers m1 b = Some hv1"
    unfolding handlers_kept_def by blast
  from assms(1) b b1 have "h_enabled hv1 = h_enabled hv" unfolding flags_kept_def by blast
  moreover from assms(2) b1 b2 have "h_enabled hv2 = h_enabled hv1"
    unfolding flags_kept_def by blast
  ultimately show "h_enabled hv2 = h_enabled hv" by simp
qed

lemma flags_kept_enabled:
  assumes "flags_kept m m'" "handlers_kept m m'" "m_handlers m b \<noteq> None"
  shows "handler_enabled m' b = handler_enabled m b"
proof -
  from assms(3) obtain hv where hv: "m_handlers m b = Some hv" by auto
  with assms(2) obtain hv' where hv': "m_handlers m' b = Some hv'"
    unfolding handlers_kept_def by blast
  from assms(1) hv hv' have "h_enabled hv' = h_enabled hv" unfolding flags_kept_def by blast
  with hv hv' show ?thesis by (simp add: handler_enabled_def)
qed

lemma flags_kept_filter:
  assumes "flags_kept m m'" "handlers_kept m m'" "set as \<subseteq> dom (m_handlers m)"
  shows "filter (handler_enabled m') as = filter (handler_enabled m) as"
proof (rule filter_cong [OF refl])
  fix b assume "b \<in> set as"
  with assms(3) have "m_handlers m b \<noteq> None" by auto
  with assms(1,2) show "handler_enabled m' b = handler_enabled m b" by (rule flags_kept_enabled)
qed

lemma stats_accounted_refl: "stats_accounted m m []"
  by (auto simp: stats_accounted_def calls_of_simps account_calls_simps)

lemma stats_accounted_trans:
  assumes "stats_accounted m m1 ks1" "stats_accounted m1 m2 ks2" "handlers_kept m m1"
  shows "stats_accounted m m2 (ks1 @ ks2)"
  unfolding stats_accounted_def
proof (intro allI impI, elim conjE)
  fix b hv hv2 assume b: "m_handlers m b = Some hv" and b2: "m_handlers m2 b = Some hv2"
  from assms(3) b obtain hv1 where b1: "m_handlers m1 b = Some hv1"
    unfolding handlers_kept_def by blast
  from assms(1) b b1 have 1: "statistics hv1 = statistics (account_calls hv (calls_of b ks1))"
    unfolding stats_accounted_def by blast
  from assms(2) b1 b2 have "statistics hv2 = statistics (account_calls hv1 (calls_of b ks2))"
    unfolding stats_accounted_def by blast
  also from 1 have "\<dots> = statistics (account_calls (account_calls hv (calls_of b ks1)) (calls_of b ks2))"
    by (rule account_calls_statistics)
  finally show "statistics hv2 = statistics (account_calls hv (calls_of b (ks1 @ ks2)))"
    by (simp only: calls_of_simps account_calls_simps)
qed

text \<open>The same invocation, with what it does to the flags and the statistics.\<close>

lemma one_call:
  assumes hv: "m_handlers m a = Some hv" and ev: "m_events m e \<noteq> None"
    and ob: "obeys_contract (code (h_func hv))"
  shows "\<exists>r ctx1 m0 hv0 m1 x.
      code (h_func hv) ctx e (h_user_data hv) m = Some (r, ctx1, m0) \<and>
      m_handlers m0 a = Some hv0 \<and>
      x = exec_time_ms (m_ticks m (m_reads m + 1) - m_ticks m (m_reads m)) \<and>
      m1 = m0\<lparr>m_handlers := (m_handlers m0)(a \<mapsto> handler_account hv0 r x),
              m_ticks := m_ticks m, m_reads := m_reads m + 2,
              m_calls := m_calls m @
                [\<lparr>k_handler = a, k_event = e, k_result = r, k_exec_time = x\<rparr>]\<rparr> \<and>
      invoke_handler code a e ctx m = Some (ctx1, m1) \<and>
      dispatch_frame ctx m ctx1 m1 \<and>
      (keeps_enabled (code (h_func hv)) \<longrightarrow> flags_kept m m1) \<and>
      (keeps_statistics (code (h_func hv)) \<longrightarrow>
         stats_accounted m m1 [\<lparr>k_handler = a, k_event = e, k_result = r, k_exec_time = x\<rparr>])"
proof -
  define x where "x = exec_time_ms (m_ticks m (m_reads m + 1) - m_ticks m (m_reads m))"
  from invoke_handler_obeys [where code = code and ctx = ctx, OF hv ev ob] obtain r ctx1 m0 hv0 m1 where
    call: "code (h_func hv) ctx e (h_user_data hv) m = Some (r, ctx1, m0)"
    and hv0: "m_handlers m0 a = Some hv0"
    and m1: "m1 = m0\<lparr>m_handlers := (m_handlers m0)(a \<mapsto> handler_account hv0 r x),
              m_ticks := m_ticks m, m_reads := m_reads m + 2,
              m_calls := m_calls m @
                [\<lparr>k_handler = a, k_event = e, k_result = r, k_exec_time = x\<rparr>]\<rparr>"
    and inv: "invoke_handler code a e ctx m = Some (ctx1, m1)"
    and frame0: "dispatch_frame ctx m ctx1 m0" and frame1: "dispatch_frame ctx m ctx1 m1"
    unfolding x_def by blast
  have h1: "m_handlers m1 = (m_handlers m0)(a \<mapsto> handler_account hv0 r x)"
    by (simp add: m1)
  have flags: "flags_kept m m1" if ke: "keeps_enabled (code (h_func hv))"
    unfolding flags_kept_def
  proof (intro allI impI, elim conjE)
    fix b hvb hvb1 assume b: "m_handlers m b = Some hvb" and b1: "m_handlers m1 b = Some hvb1"
    from frame0 have "handlers_kept m m0" by (simp add: dispatch_frame_def)
    with b obtain hvb0 where b0: "m_handlers m0 b = Some hvb0"
      unfolding handlers_kept_def by blast
    from ke call b b0 have en0: "h_enabled hvb0 = h_enabled hvb"
      unfolding keeps_enabled_def by blast
    show "h_enabled hvb1 = h_enabled hvb"
    proof (cases "b = a")
      case True
      with b0 hv0 have "hvb0 = hv0" by simp
      with True b1 have "hvb1 = handler_account hvb0 r x" by (simp add: h1)
      with en0 show ?thesis by (simp add: handler_account_fields)
    next
      case False
      with b1 b0 have "hvb1 = hvb0" by (simp add: h1)
      with en0 show ?thesis by simp
    qed
  qed
  have stats: "stats_accounted m m1 [\<lparr>k_handler = a, k_event = e, k_result = r, k_exec_time = x\<rparr>]"
    if ks: "keeps_statistics (code (h_func hv))"
    unfolding stats_accounted_def
  proof (intro allI impI, elim conjE)
    fix b hvb hvb1 assume b: "m_handlers m b = Some hvb" and b1: "m_handlers m1 b = Some hvb1"
    from frame0 have "handlers_kept m m0" by (simp add: dispatch_frame_def)
    with b obtain hvb0 where b0: "m_handlers m0 b = Some hvb0"
      unfolding handlers_kept_def by blast
    from ks call b b0 have st0: "statistics hvb0 = statistics hvb"
      unfolding keeps_statistics_def by blast
    show "statistics hvb1 = statistics (account_calls hvb
            (calls_of b [\<lparr>k_handler = a, k_event = e, k_result = r, k_exec_time = x\<rparr>]))"
    proof (cases "b = a")
      case True
      with b0 hv0 have "hvb0 = hv0" by simp
      with True b1 have "hvb1 = handler_account hvb0 r x" by (simp add: h1)
      moreover from st0 have "statistics (handler_account hvb0 r x) =
          statistics (handler_account hvb r x)" by (rule handler_account_statistics)
      ultimately show ?thesis using True by (simp add: calls_of_simps account_calls_simps)
    next
      case False
      with b1 b0 have "hvb1 = hvb0" by (simp add: h1)
      with st0 False show ?thesis by (simp add: calls_of_simps account_calls_simps)
    qed
  qed
  from call hv0 x_def m1 inv frame1 flags stats show ?thesis
    by (iprover intro: exI conjI impI)
qed

subsection \<open>The inner loop\<close>

lemma dispatch_post_Nil: "dispatch_post code ctx m ctx m e [] []"
  by (simp add: dispatch_post_def dispatch_frame_refl flags_kept_refl stats_accounted_refl)

text \<open>Passing over a disabled handler.\<close>

lemma dispatch_post_skip:
  assumes post: "dispatch_post code ctx m ctx' m' e as ks"
    and hv: "m_handlers m a = Some hv" and dis: "\<not> h_enabled hv"
  shows "dispatch_post code ctx m ctx' m' e (a # as) ks"
proof -
  from hv dis have "\<not> handler_enabled m a" by (simp add: handler_enabled_def)
  then have f: "filter (handler_enabled m) (a # as) = filter (handler_enabled m) as" by simp
  have c: "callbacks_are P code m (a # as) \<Longrightarrow> callbacks_are P code m as" for P
    by (rule callbacks_are_Cons)
  from post f c show ?thesis unfolding dispatch_post_def by (simp only:) blast
qed

text \<open>One invocation, followed by the dispatch to the rest of the registry.\<close>

lemma dispatch_post_call:
  assumes frame1: "dispatch_frame ctx m ctx1 m1"
    and ticks1: "m_ticks m1 = m_ticks m" and calls1: "m_calls m1 = m_calls m @ [k]"
    and k: "k_handler k = a" "k_event k = e"
    and flags1: "keeps_enabled (code (h_func hv)) \<longrightarrow> flags_kept m m1"
    and stats1: "keeps_statistics (code (h_func hv)) \<longrightarrow> stats_accounted m m1 [k]"
    and hv: "m_handlers m a = Some hv" and en: "h_enabled hv"
    and alloc: "set as \<subseteq> dom (m_handlers m)"
    and post: "dispatch_post code ctx1 m1 ctx' m' e as ks"
  shows "dispatch_post code ctx m ctx' m' e (a # as) (k # ks)"
proof -
  from frame1 have kept1: "handlers_kept m m1" by (simp add: dispatch_frame_def)
  from post have frame2: "dispatch_frame ctx1 m1 ctx' m'" and ticks2: "m_ticks m' = m_ticks m1"
    and calls2: "m_calls m' = m_calls m1 @ ks" and ev2: "\<forall>k\<in>set ks. k_event k = e"
    and en2: "callbacks_are keeps_enabled code m1 as \<longrightarrow>
        map k_handler ks = filter (handler_enabled m1) as \<and> flags_kept m1 m'"
    and st2: "callbacks_are keeps_statistics code m1 as \<longrightarrow> stats_accounted m1 m' ks"
    by (simp_all add: dispatch_post_def)
  have a: "dispatch_frame ctx m ctx' m'" using frame1 frame2 by (rule dispatch_frame_trans)
  have b: "m_ticks m' = m_ticks m" using ticks1 ticks2 by simp
  have c: "m_calls m' = m_calls m @ k # ks" using calls1 calls2 by simp
  have d: "\<forall>k\<in>set (k # ks). k_event k = e" using ev2 k by simp
  have e: "map k_handler (k # ks) = filter (handler_enabled m) (a # as) \<and> flags_kept m m'"
    if all: "callbacks_are keeps_enabled code m (a # as)"
  proof -
    from all hv have "keeps_enabled (code (h_func hv))" by (rule callbacks_are_Cons)
    with flags1 have fk1: "flags_kept m m1" by simp
    from all have "callbacks_are keeps_enabled code m as" by (rule callbacks_are_Cons)
    with kept1 have "callbacks_are keeps_enabled code m1 as"
      using alloc by (rule handlers_kept_callbacks)
    with en2 have hs: "map k_handler ks = filter (handler_enabled m1) as"
      and fk2: "flags_kept m1 m'" by simp_all
    from fk1 kept1 alloc have "filter (handler_enabled m1) as = filter (handler_enabled m) as"
      by (rule flags_kept_filter)
    moreover from hv en have "handler_enabled m a" by (simp add: handler_enabled_def)
    ultimately have "map k_handler (k # ks) = filter (handler_enabled m) (a # as)"
      using hs k by simp
    moreover from fk1 fk2 kept1 have "flags_kept m m'" by (rule flags_kept_trans)
    ultimately show ?thesis by simp
  qed
  have f: "stats_accounted m m' (k # ks)"
    if all: "callbacks_are keeps_statistics code m (a # as)"
  proof -
    from all hv have "keeps_statistics (code (h_func hv))" by (rule callbacks_are_Cons)
    with stats1 have s1: "stats_accounted m m1 [k]" by simp
    from all have "callbacks_are keeps_statistics code m as" by (rule callbacks_are_Cons)
    with kept1 have "callbacks_are keeps_statistics code m1 as"
      using alloc by (rule handlers_kept_callbacks)
    with st2 have "stats_accounted m1 m' ks" by simp
    with s1 have "stats_accounted m m' ([k] @ ks)" using kept1 by (rule stats_accounted_trans)
    then show ?thesis by simp
  qed
  from a b c d e f show ?thesis unfolding dispatch_post_def by (iprover intro: conjI impI)
qed

text \<open>
  Along a registry that spells \<open>as\<close>, with callbacks that obey the contract, the loop of
  the code returns, and returns what the dispatch of the specification returns.
\<close>

lemma run_handlers_spec:
  "h_path (m_handlers m) p as \<Longrightarrow> callbacks_are obeys_contract code m as \<Longrightarrow>
   m_events m e \<noteq> None \<Longrightarrow>
   \<exists>ctx' m' ks. run_handlers code p e ctx m = Some (ctx', m') \<and>
     spec_dispatch code as e ctx m = Some (ctx', m') \<and>
     dispatch_post code ctx m ctx' m' e as ks"
proof (induction as arbitrary: p ctx m)
  case Nil
  then have "run_handlers code p e ctx m = Some (ctx, m)" by (simp add: run_handlers.simps)
  moreover have "spec_dispatch code [] e ctx m = Some (ctx, m)" by simp
  ultimately show ?case using dispatch_post_Nil by blast
next
  case (Cons a as)
  from Cons.prems(1) obtain hv where p: "p = Some a" and hv: "m_handlers m a = Some hv"
    and rest: "h_path (m_handlers m) (h_next hv) as" by (auto split: option.splits)
  from Cons.prems(2) have obs: "callbacks_are obeys_contract code m as"
    by (rule callbacks_are_Cons)
  have alloc: "set as \<subseteq> dom (m_handlers m)"
    using h_path_allocated [OF rest] by auto
  show ?case
  proof (cases "h_enabled hv")
    case False
    from Cons.IH [OF rest obs Cons.prems(3), of ctx] obtain ctx' m' ks where
      run: "run_handlers code (h_next hv) e ctx m = Some (ctx', m')"
      and spec: "spec_dispatch code as e ctx m = Some (ctx', m')"
      and post: "dispatch_post code ctx m ctx' m' e as ks" by blast
    from p hv False run have "run_handlers code p e ctx m = Some (ctx', m')"
      by (subst run_handlers.simps) simp
    moreover from hv False spec have "spec_dispatch code (a # as) e ctx m = Some (ctx', m')"
      by simp
    moreover from post hv False have "dispatch_post code ctx m ctx' m' e (a # as) ks"
      by (rule dispatch_post_skip)
    ultimately show ?thesis by blast
  next
    case True
    from Cons.prems(2) hv have ob: "obeys_contract (code (h_func hv))"
      by (rule callbacks_are_Cons)
    from one_call [where code = code and ctx = ctx, OF hv Cons.prems(3) ob] obtain r ctx1 m0 hv0 m1 x where
      call: "code (h_func hv) ctx e (h_user_data hv) m = Some (r, ctx1, m0)"
      and hv0: "m_handlers m0 a = Some hv0"
      and x: "x = exec_time_ms (m_ticks m (m_reads m + 1) - m_ticks m (m_reads m))"
      and m1: "m1 = m0\<lparr>m_handlers := (m_handlers m0)(a \<mapsto> handler_account hv0 r x),
              m_ticks := m_ticks m, m_reads := m_reads m + 2,
              m_calls := m_calls m @
                [\<lparr>k_handler = a, k_event = e, k_result = r, k_exec_time = x\<rparr>]\<rparr>"
      and inv: "invoke_handler code a e ctx m = Some (ctx1, m1)"
      and frame1: "dispatch_frame ctx m ctx1 m1"
      and flags1: "keeps_enabled (code (h_func hv)) \<longrightarrow> flags_kept m m1"
      and stats1: "keeps_statistics (code (h_func hv)) \<longrightarrow>
         stats_accounted m m1 [\<lparr>k_handler = a, k_event = e, k_result = r, k_exec_time = x\<rparr>]"
      by blast
    define k where "k = \<lparr>k_handler = a, k_event = e, k_result = r, k_exec_time = x\<rparr>"
    from frame1 have kept1: "handlers_kept m m1" and evs1: "events_kept m m1"
      by (simp_all add: dispatch_frame_def)
    from kept1 hv obtain hv1 where hv1: "m_handlers m1 a = Some hv1"
      and next1: "h_next hv1 = h_next hv" unfolding handlers_kept_def by blast
    from kept1 rest have "h_path (m_handlers m1) (h_next hv) as" by (rule handlers_kept_path)
    then have path1: "h_path (m_handlers m1) (h_next hv1) as" by (simp add: next1)
    from kept1 obs alloc have obs1: "callbacks_are obeys_contract code m1 as"
      by (rule handlers_kept_callbacks)
    from evs1 Cons.prems(3) have e1: "m_events m1 e \<noteq> None"
      unfolding events_kept_def by fastforce
    from Cons.IH [OF path1 obs1 e1, of ctx1] obtain ctx' m' ks where
      run: "run_handlers code (h_next hv1) e ctx1 m1 = Some (ctx', m')"
      and spec: "spec_dispatch code as e ctx1 m1 = Some (ctx', m')"
      and post: "dispatch_post code ctx1 m1 ctx' m' e as ks" by blast
    from p hv True inv hv1 run have r1: "run_handlers code p e ctx m = Some (ctx', m')"
      by (subst run_handlers.simps) simp
    from hv True call hv0 spec have r2: "spec_dispatch code (a # as) e ctx m = Some (ctx', m')"
      by (simp add: Let_def m1 x)
    have "dispatch_post code ctx m ctx' m' e (a # as) (k # ks)"
    proof (rule dispatch_post_call [OF frame1 _ _ _ _ _ _ hv True alloc post])
      show "m_ticks m1 = m_ticks m" by (simp add: m1)
      show "m_calls m1 = m_calls m @ [k]" by (simp add: m1 k_def)
      show "k_handler k = a" "k_event k = e" by (simp_all add: k_def)
      show "keeps_enabled (code (h_func hv)) \<longrightarrow> flags_kept m m1" by (rule flags1)
      show "keeps_statistics (code (h_func hv)) \<longrightarrow> stats_accounted m m1 [k]"
        using stats1 by (simp only: k_def)
    qed
    with r1 r2 show ?thesis by blast
  qed
qed

subsection \<open>The outer loop\<close>

lemma pop_frame:
  "goon_queue_pop h q = Some (Some a, h', q') \<Longrightarrow>
   (\<forall>b. b \<noteq> a \<longrightarrow> h' b = h b) \<and>
   q'\<lparr>q_head := None, q_tail := None, q_size := 0\<rparr> = q\<lparr>q_head := None, q_tail := None, q_size := 0\<rparr>"
  by (auto simp: goon_queue_pop_def split: option.splits)

lemma queue_inv_Nil:
  "queue_inv h q [] \<Longrightarrow> q\<lparr>q_head := None, q_tail := None, q_size := 0\<rparr> = q"
  by (simp add: queue_inv_def)

lemma destroy_Some:
  "m_events m e \<noteq> None \<Longrightarrow>
   \<exists>w. goon_event_destroy (Some e) m = Some (m\<lparr>m_world := w, m_events := (m_events m)(e := None)\<rparr>)"
  by (auto simp: goon_event_destroy_def)

lemma pairs_of_calls:
  "\<forall>k\<in>set ks. k_event k = e \<Longrightarrow>
   map (\<lambda>k. (k_event k, k_handler k)) ks = map (Pair e) (map k_handler ks)"
  by (induction ks) auto

text \<open>The predicates on handlers look at the handler store only.\<close>

lemma handlers_only:
  assumes "m_handlers n = m_handlers m" "m_handlers n' = m_handlers m'"
  shows "handlers_kept n n' = handlers_kept m m'"
    and "flags_kept n n' = flags_kept m m'"
    and "stats_accounted n n' ks = stats_accounted m m' ks"
    and "callbacks_are P code n as = callbacks_are P code m as"
    and "handler_enabled n = handler_enabled m"
  using assms
  by (simp_all add: handlers_kept_def flags_kept_def stats_accounted_def callbacks_are_def
        handler_enabled_def fun_eq_iff)

lemma pass_post_Nil:
  "queue_inv (m_events m) (ctx_event_queue ctx) [] \<Longrightarrow> pass_post code ctx m ctx m [] hs []"
  by (simp add: pass_post_def queue_inv_Nil handlers_kept_refl flags_kept_refl
        stats_accounted_refl)

text \<open>The dispatch of the first event, followed by the pass over the rest of the queue.\<close>

lemma pass_post_Cons:
  assumes handlers0: "m_handlers m0 = m_handlers m" "ctx_handlers ctx0 = ctx_handlers ctx"
    and queue0: "(ctx_event_queue ctx0)\<lparr>q_head := None, q_tail := None, q_size := 0\<rparr> =
                 (ctx_event_queue ctx)\<lparr>q_head := None, q_tail := None, q_size := 0\<rparr>"
    and ticks0: "m_ticks m0 = m_ticks m" and calls0: "m_calls m0 = m_calls m"
    and post1: "dispatch_post code ctx0 m0 ctx1 m1 e hs ks1"
    and handlers2: "m_handlers m2 = m_handlers m1" "ctx_handlers ctx2 = ctx_handlers ctx1"
    and queue2: "ctx_event_queue ctx2 = ctx_event_queue ctx1"
    and ticks2: "m_ticks m2 = m_ticks m1" and calls2: "m_calls m2 = m_calls m1"
    and alloc: "set hs \<subseteq> dom (m_handlers m)"
    and post2: "pass_post code ctx2 m2 ctx' m' es hs ks2"
  shows "pass_post code ctx m ctx' m' (e # es) hs (ks1 @ ks2)"
proof -
  from post1 have frame1: "dispatch_frame ctx0 m0 ctx1 m1" and t1: "m_ticks m1 = m_ticks m0"
    and c1: "m_calls m1 = m_calls m0 @ ks1" and ev1: "\<forall>k\<in>set ks1. k_event k = e"
    and en1: "callbacks_are keeps_enabled code m0 hs \<longrightarrow>
        map k_handler ks1 = filter (handler_enabled m0) hs \<and> flags_kept m0 m1"
    and st1: "callbacks_are keeps_statistics code m0 hs \<longrightarrow> stats_accounted m0 m1 ks1"
    by (simp_all add: dispatch_post_def)
  from post2 have h2: "ctx_handlers ctx' = ctx_handlers ctx2"
    and q2: "ctx_event_queue ctx' =
             (ctx_event_queue ctx2)\<lparr>q_head := None, q_tail := None, q_size := 0\<rparr>"
    and kept2: "handlers_kept m2 m'" and t2: "m_ticks m' = m_ticks m2"
    and c2: "m_calls m' = m_calls m2 @ ks2"
    and en2: "callbacks_are keeps_enabled code m2 hs \<longrightarrow>
        map (\<lambda>k. (k_event k, k_handler k)) ks2 = List.product es (filter (handler_enabled m2) hs) \<and>
        flags_kept m2 m'"
    and st2: "callbacks_are keeps_statistics code m2 hs \<longrightarrow> stats_accounted m2 m' ks2"
    by (simp_all add: pass_post_def)
  from frame1 have "handlers_kept m0 m1" by (simp add: dispatch_frame_def)
  then have kept1: "handlers_kept m m2"
    by (simp only: handlers_only(1) [OF handlers0(1) handlers2(1) [symmetric]])
  from kept2 have kept2': "handlers_kept m2 m'" .
  from frame1 have ch1: "ctx_handlers ctx1 = ctx_handlers ctx0"
    and cq1: "ctx_event_queue ctx1 = ctx_event_queue ctx0" by (simp_all add: dispatch_frame_def)
  have a: "ctx_handlers ctx' = ctx_handlers ctx" using h2 handlers2(2) ch1 handlers0(2) by simp
  have b: "ctx_event_queue ctx' =
           (ctx_event_queue ctx)\<lparr>q_head := None, q_tail := None, q_size := 0\<rparr>"
    using q2 queue2 cq1 queue0 by simp
  have c: "handlers_kept m m'" using kept1 kept2 by (rule handlers_kept_trans)
  have d: "m_ticks m' = m_ticks m" using t2 ticks2 t1 ticks0 by simp
  have e: "m_calls m' = m_calls m @ ks1 @ ks2" using c2 calls2 c1 calls0 by simp
  have cb: "callbacks_are P code m2 hs" if "callbacks_are P code m hs" for P
    using kept1 that alloc by (rule handlers_kept_callbacks)
  have f: "map (\<lambda>k. (k_event k, k_handler k)) (ks1 @ ks2) =
             List.product (e # es) (filter (handler_enabled m) hs) \<and> flags_kept m m'"
    if all: "callbacks_are keeps_enabled code m hs"
  proof -
    from all have "callbacks_are keeps_enabled code m0 hs"
      by (simp only: handlers_only(4) [OF handlers0(1) handlers0(1)])
    with en1 have hs1: "map k_handler ks1 = filter (handler_enabled m0) hs"
      and fk1: "flags_kept m0 m1" by simp_all
    from fk1 have fk1': "flags_kept m m2"
      by (simp only: handlers_only(2) [OF handlers0(1) handlers2(1) [symmetric]])
    from hs1 have hs1': "map k_handler ks1 = filter (handler_enabled m) hs"
      by (simp only: handlers_only(5) [OF handlers0(1) handlers0(1)])
    from pairs_of_calls [OF ev1] hs1'
    have p1: "map (\<lambda>k. (k_event k, k_handler k)) ks1 = map (Pair e) (filter (handler_enabled m) hs)"
      by (simp only:)
    from cb [OF all] en2
    have p2: "map (\<lambda>k. (k_event k, k_handler k)) ks2 =
                List.product es (filter (handler_enabled m2) hs)"
      and fk2: "flags_kept m2 m'" by simp_all
    from fk1' kept1 alloc have "filter (handler_enabled m2) hs = filter (handler_enabled m) hs"
      by (rule flags_kept_filter)
    with p1 p2 have "map (\<lambda>k. (k_event k, k_handler k)) (ks1 @ ks2) =
             List.product (e # es) (filter (handler_enabled m) hs)" by simp
    moreover from fk1' fk2 kept1 have "flags_kept m m'" by (rule flags_kept_trans)
    ultimately show ?thesis by simp
  qed
  have g: "stats_accounted m m' (ks1 @ ks2)"
    if all: "callbacks_are keeps_statistics code m hs"
  proof -
    from all have "callbacks_are keeps_statistics code m0 hs"
      by (simp only: handlers_only(4) [OF handlers0(1) handlers0(1)])
    with st1 have "stats_accounted m0 m1 ks1" by simp
    then have s1: "stats_accounted m m2 ks1"
      by (simp only: handlers_only(3) [OF handlers0(1) handlers2(1) [symmetric]])
    from cb [OF all] st2 have "stats_accounted m2 m' ks2" by simp
    with s1 show ?thesis using kept1 by (rule stats_accounted_trans)
  qed
  from a b c d e f g show ?thesis unfolding pass_post_def by (iprover intro: conjI impI)
qed

text \<open>
  On a well-formed queue and registry, with callbacks that obey the contract, the loop
  of the code returns after as many rounds as there are events, and returns what the
  pass of the specification returns.
\<close>

lemma process_loop_spec:
  "queue_inv (m_events m) (ctx_event_queue ctx) es \<Longrightarrow>
   h_path (m_handlers m) (ctx_handlers ctx) hs \<Longrightarrow>
   callbacks_are obeys_contract code m hs \<Longrightarrow>
   processed + int (length es) \<le> 2147483647 \<Longrightarrow>
   \<exists>ctx' m' ks. process_loop code ctx m processed = Some (processed + int (length es), ctx', m') \<and>
     spec_pass code hs es ctx m = Some (ctx', m') \<and>
     pass_post code ctx m ctx' m' es hs ks"
proof (induction es arbitrary: ctx m processed)
  case Nil
  from Nil.prems(1) have "goon_queue_is_empty (ctx_event_queue ctx)"
    by (simp add: queue_inv_def goon_queue_is_empty_def)
  then have "process_loop code ctx m processed = Some (processed, ctx, m)"
    by (subst process_loop.simps) simp
  moreover have "spec_pass code hs [] ctx m = Some (ctx, m)" by simp
  moreover note pass_post_Nil [OF Nil.prems(1), of code hs]
  ultimately show ?case by auto
next
  case (Cons e es)
  let ?q0 = "ctx_event_queue ctx"
  from Cons.prems(1) have fresh: "e \<notin> set es" by (simp add: queue_inv_def)
  from queue_inv_size [OF Cons.prems(1)] have "unat (q_size ?q0) \<noteq> 0" by simp
  then have nonempty: "\<not> goon_queue_is_empty ?q0"
    by (auto simp: goon_queue_is_empty_def)
  from pop_inv [OF Cons.prems(1)] obtain h q where
    pop: "goon_queue_pop (m_events m) ?q0 = Some (Some e, h, q)"
    and inv: "queue_inv h q es" and dom: "dom h = dom (m_events m)" by blast
  from pop_frame [OF pop]
  have qframe: "q\<lparr>q_head := None, q_tail := None, q_size := 0\<rparr> =
                 ?q0\<lparr>q_head := None, q_tail := None, q_size := 0\<rparr>" by blast
  from Cons.prems(1) have "m_events m e \<noteq> None"
    by (auto simp: queue_inv_def split: option.splits)
  with dom have he: "h e \<noteq> None" by blast
  define m0 where "m0 = m\<lparr>m_events := h\<rparr>"
  define ctx0 where "ctx0 = ctx\<lparr>ctx_event_queue := q\<rparr>"
  have hm0: "m_handlers m0 = m_handlers m" by (simp add: m0_def)
  have alloc: "set hs \<subseteq> dom (m_handlers m)"
    using h_path_allocated [OF Cons.prems(2)] by auto
  from Cons.prems(2) have path0: "h_path (m_handlers m0) (ctx_handlers ctx) hs"
    by (simp add: m0_def)
  from Cons.prems(3) have obs0: "callbacks_are obeys_contract code m0 hs"
    by (simp only: handlers_only(4) [OF hm0 hm0])
  from he have e0: "m_events m0 e \<noteq> None" by (simp add: m0_def)
  from run_handlers_spec [OF path0 obs0 e0, of ctx0] obtain ctx1 m1 ks1 where
    run: "run_handlers code (ctx_handlers ctx) e ctx0 m0 = Some (ctx1, m1)"
    and spec1: "spec_dispatch code hs e ctx0 m0 = Some (ctx1, m1)"
    and post1: "dispatch_post code ctx0 m0 ctx1 m1 e hs ks1" by blast
  from post1 have frame1: "dispatch_frame ctx0 m0 ctx1 m1" by (simp add: dispatch_post_def)
  then have kept1: "handlers_kept m0 m1" and evs1: "events_kept m0 m1"
    and ch1: "ctx_handlers ctx1 = ctx_handlers ctx0"
    and cq1: "ctx_event_queue ctx1 = ctx_event_queue ctx0"
    by (simp_all add: dispatch_frame_def)
  from evs1 e0 have e1: "m_events m1 e \<noteq> None" unfolding events_kept_def by fastforce
  from destroy_Some [OF e1] obtain w where
    destroy: "goon_event_destroy (Some e) m1 =
                Some (m1\<lparr>m_world := w, m_events := (m_events m1)(e := None)\<rparr>)" by blast
  define m2 where "m2 = m1\<lparr>m_world := w, m_events := (m_events m1)(e := None)\<rparr>"
  define ctx2 where "ctx2 = ctx1\<lparr>ctx_total_events_processed := ctx_total_events_processed ctx1 + 1\<rparr>"
  from Cons.prems(4) have notmax: "\<not> 2147483647 \<le> processed" by simp
  have step: "process_loop code ctx m processed = process_loop code ctx2 m2 (processed + 1)"
    using nonempty pop run destroy notmax
    by (subst process_loop.simps)
       (simp add: m0_def [symmetric] ctx0_def [symmetric] m2_def ctx2_def)
  have spec_step: "spec_pass code hs (e # es) ctx m = spec_pass code hs es ctx2 m2"
    using pop spec1 destroy
    by (simp add: m0_def [symmetric] ctx0_def [symmetric] m2_def ctx2_def)
  have links: "map_option ev_next (m_events m2 b) = map_option ev_next (h b)" if "b \<in> set es" for b
  proof -
    from that fresh have "b \<noteq> e" by auto
    then have "m_events m2 b = m_events m1 b" by (simp add: m2_def)
    moreover from inv that have "h b \<noteq> None"
      by (auto simp: queue_inv_def dest: ev_path_allocated)
    then have "m_events m0 b \<noteq> None" by (simp add: m0_def)
    with evs1 have "map_option ev_next (m_events m1 b) = map_option ev_next (m_events m0 b)"
      by (rule events_kept_links)
    ultimately show ?thesis by (simp add: m0_def)
  qed
  have "ev_path (m_events m2) (q_head q) es = ev_path h (q_head q) es"
    by (rule ev_path_links) (rule links)
  with inv have inv2: "queue_inv (m_events m2) (ctx_event_queue ctx2) es"
    by (simp add: queue_inv_def ctx2_def cq1 ctx0_def)
  from kept1 path0 have "h_path (m_handlers m1) (ctx_handlers ctx) hs" by (rule handlers_kept_path)
  then have path2: "h_path (m_handlers m2) (ctx_handlers ctx2) hs"
    by (simp add: m2_def ctx2_def ch1 ctx0_def)
  have alloc0: "set hs \<subseteq> dom (m_handlers m0)" using alloc by (simp add: hm0)
  have hm2: "m_handlers m2 = m_handlers m1" by (simp add: m2_def)
  from kept1 obs0 alloc0 have "callbacks_are obeys_contract code m1 hs"
    by (rule handlers_kept_callbacks)
  then have obs2: "callbacks_are obeys_contract code m2 hs"
    by (simp only: handlers_only(4) [OF hm2 hm2])
  from Cons.prems(4) have bound: "processed + 1 + int (length es) \<le> 2147483647" by simp
  from Cons.IH [OF inv2 path2 obs2 bound] obtain ctx' m' ks2 where
    rest: "process_loop code ctx2 m2 (processed + 1) =
             Some (processed + 1 + int (length es), ctx', m')"
    and spec2: "spec_pass code hs es ctx2 m2 = Some (ctx', m')"
    and post2: "pass_post code ctx2 m2 ctx' m' es hs ks2" by blast
  have "pass_post code ctx m ctx' m' (e # es) hs (ks1 @ ks2)"
  proof (rule pass_post_Cons [OF hm0 _ _ _ _ post1 _ _ _ _ _ alloc post2])
    show "ctx_handlers ctx0 = ctx_handlers ctx" by (simp add: ctx0_def)
    show "(ctx_event_queue ctx0)\<lparr>q_head := None, q_tail := None, q_size := 0\<rparr> =
          (ctx_event_queue ctx)\<lparr>q_head := None, q_tail := None, q_size := 0\<rparr>"
      using qframe by (simp add: ctx0_def)
    show "m_ticks m0 = m_ticks m" "m_calls m0 = m_calls m" by (simp_all add: m0_def)
    show "m_handlers m2 = m_handlers m1" "m_ticks m2 = m_ticks m1" "m_calls m2 = m_calls m1"
      by (simp_all add: m2_def)
    show "ctx_handlers ctx2 = ctx_handlers ctx1" "ctx_event_queue ctx2 = ctx_event_queue ctx1"
      by (simp_all add: ctx2_def)
  qed
  moreover from step rest
  have "process_loop code ctx m processed = Some (processed + int (length (e # es)), ctx', m')"
    by (simp add: add.assoc)
  moreover from spec_step spec2 have "spec_pass code hs (e # es) ctx m = Some (ctx', m')" by simp
  ultimately show ?case by blast
qed

subsection \<open>A whole pass\<close>

lemma process_events_pass:
  assumes "ctx_state ctx = GOON_STATE_RUNNING"
    and "queue_inv (m_events m) (ctx_event_queue ctx) es"
    and "h_path (m_handlers m) (ctx_handlers ctx) hs"
    and "callbacks_are obeys_contract code m hs"
    and "length es < 2 ^ 31"
  shows "\<exists>ctx' m' ks. goon_context_process_events code ctx m = Some (int (length es), ctx', m') \<and>
           spec_pass code hs es ctx m = Some (ctx', m') \<and>
           pass_post code ctx m ctx' m' es hs ks"
proof -
  from assms(5) have "0 + int (length es) \<le> 2147483647" by simp
  from process_loop_spec [OF assms(2,3,4) this] assms(1)
  show ?thesis by (simp add: goon_context_process_events_def)
qed

subsection \<open>The registry is acyclic\<close>




subsection \<open>Registration\<close>

lemma register_all_spec:
  "h_path (m_handlers m) (ctx_handlers ctx) old \<Longrightarrow> distinct hs \<Longrightarrow>
   set hs \<inter> set old = {} \<Longrightarrow> set hs \<subseteq> dom (m_handlers m) \<Longrightarrow>
   \<exists>ctx' m'. register_all ctx m hs = Some (replicate (length hs) GOON_SUCCESS, ctx', m') \<and>
     h_path (m_handlers m') (ctx_handlers ctx') (rev hs @ old) \<and>
     handler_enabled m' = handler_enabled m \<and>
     ctx_state ctx' = ctx_state ctx \<and> ctx_event_queue ctx' = ctx_event_queue ctx \<and>
     m_events m' = m_events m \<and> m_calls m' = m_calls m \<and>
     (\<forall>b. map_option h_func (m_handlers m' b) = map_option h_func (m_handlers m b))"
proof (induction hs arbitrary: ctx m old)
  case Nil
  then show ?case by simp
next
  case (Cons a hs)
  from Cons.prems obtain hv where hv: "m_handlers m a = Some hv" by auto
  define m1 where "m1 = m\<lparr>m_handlers := (m_handlers m)(a \<mapsto> hv\<lparr>h_next := ctx_handlers ctx\<rparr>)\<rparr>"
  define ctx1 where "ctx1 = ctx\<lparr>ctx_handlers := Some a,
                                ctx_handler_count := ctx_handler_count ctx + 1\<rparr>"
  have reg: "goon_context_register_handler ctx m (Some a) = Some (GOON_SUCCESS, ctx1, m1)"
    using hv by (simp add: goon_context_register_handler_def m1_def ctx1_def)
  from Cons.prems have a_old: "a \<notin> set old" by auto
  have "h_path (m_handlers m1) (ctx_handlers ctx) old = h_path (m_handlers m) (ctx_handlers ctx) old"
    using a_old by (intro h_path_cong) (auto simp: m1_def)
  with Cons.prems(1) have "h_path (m_handlers m1) (ctx_handlers ctx) old" by simp
  then have path1: "h_path (m_handlers m1) (ctx_handlers ctx1) (a # old)"
    by (simp add: m1_def ctx1_def)
  have en1: "handler_enabled m1 = handler_enabled m"
    using hv by (auto simp: handler_enabled_def m1_def fun_eq_iff)
  from Cons.prems have "\<exists>ctx' m'. register_all ctx1 m1 hs =
       Some (replicate (length hs) GOON_SUCCESS, ctx', m') \<and>
     h_path (m_handlers m') (ctx_handlers ctx') (rev hs @ a # old) \<and>
     handler_enabled m' = handler_enabled m1 \<and>
     ctx_state ctx' = ctx_state ctx1 \<and> ctx_event_queue ctx' = ctx_event_queue ctx1 \<and>
     m_events m' = m_events m1 \<and> m_calls m' = m_calls m1 \<and>
     (\<forall>b. map_option h_func (m_handlers m' b) = map_option h_func (m_handlers m1 b))"
    by (intro Cons.IH [OF path1]) (auto simp: m1_def)
  then obtain ctx' m' where
    rest: "register_all ctx1 m1 hs = Some (replicate (length hs) GOON_SUCCESS, ctx', m')"
    and path': "h_path (m_handlers m') (ctx_handlers ctx') (rev hs @ a # old)"
    and frame: "handler_enabled m' = handler_enabled m1" "ctx_state ctx' = ctx_state ctx1"
      "ctx_event_queue ctx' = ctx_event_queue ctx1" "m_events m' = m_events m1"
      "m_calls m' = m_calls m1"
      "\<forall>b. map_option h_func (m_handlers m' b) = map_option h_func (m_handlers m1 b)" by blast
  from reg rest have "register_all ctx m (a # hs) =
      Some (replicate (length (a # hs)) GOON_SUCCESS, ctx', m')" by simp
  moreover from path' have "h_path (m_handlers m') (ctx_handlers ctx') (rev (a # hs) @ old)"
    by simp
  moreover have "map_option h_func (m_handlers m1 b) = map_option h_func (m_handlers m b)" for b
    using hv by (simp add: m1_def)
  with frame en1 have "handler_enabled m' = handler_enabled m \<and>
     ctx_state ctx' = ctx_state ctx \<and> ctx_event_queue ctx' = ctx_event_queue ctx \<and>
     m_events m' = m_events m \<and> m_calls m' = m_calls m \<and>
     (\<forall>b. map_option h_func (m_handlers m' b) = map_option h_func (m_handlers m b))"
    by (simp add: m1_def ctx1_def)
  ultimately show ?case by blast
qed

subsection \<open>The accounting of a run of invocations\<close>



lemma callbacks_are_funcs:
  assumes "\<forall>b. map_option h_func (m_handlers m' b) = map_option h_func (m_handlers m b)"
  shows "callbacks_are P code m' as = callbacks_are P code m as"
proof -
  have "(\<forall>hv. m_handlers m' a = Some hv \<longrightarrow> P (code (h_func hv))) =
        (\<forall>hv. m_handlers m a = Some hv \<longrightarrow> P (code (h_func hv)))" for a
  proof (cases "m_handlers m a")
    case None
    with assms [rule_format, of a] show ?thesis by simp
  next
    case (Some hv)
    with assms [rule_format, of a] obtain hv' where "m_handlers m' a = Some hv'"
      "h_func hv' = h_func hv" by auto
    with Some show ?thesis by simp
  qed
  then show ?thesis by (simp add: callbacks_are_def)
qed

lemma callbacks_are_set:
  "set as = set bs \<Longrightarrow> callbacks_are P code m as = callbacks_are P code m bs"
  by (simp add: callbacks_are_def)

subsection \<open>The invocations of one handler in a pass\<close>





subsection \<open>The running average\<close>






section \<open>Lemmas about the text form of an event\<close>

subsection \<open>Decimal numbers\<close>

lemma digit_char_digit: "d < 10 \<Longrightarrow> is_digit (digit_char d)"
  by (simp add: is_digit_def digit_char_def)

lemma digit_char_val: "d < 10 \<Longrightarrow> (of_char (digit_char d) :: nat) - 48 = d"
  by (simp add: digit_char_def)

lemma is_digit_not_space: "is_digit c \<Longrightarrow> \<not> is_space c"
  by (auto simp: is_digit_def is_space_def)

lemma is_digit_not_sign: "is_digit c \<Longrightarrow> c \<noteq> CHR ''-'' \<and> c \<noteq> CHR ''+''"
  by (auto simp: is_digit_def)

lemma dec_nat_digits: "c \<in> set (dec_nat n) \<Longrightarrow> is_digit c"
proof (induction n rule: dec_nat.induct)
  case (1 n)
  show ?case
  proof (cases "n < 10")
    case True
    with "1.prems" show ?thesis by (simp add: dec_nat.simps [of n] digit_char_digit)
  next
    case False
    with "1.prems" have "c \<in> set (dec_nat (n div 10)) \<or> c = digit_char (n mod 10)"
      by (auto simp: dec_nat.simps [of n])
    with "1.IH" [OF False] show ?thesis by (auto simp: digit_char_digit)
  qed
qed

lemma dec_nat_nonempty: "dec_nat n \<noteq> []"
  by (simp add: dec_nat.simps [of n])

lemma digits_val_snoc: "digits_val (ds @ [c]) = 10 * digits_val ds + (of_char c - 48)"
  by (simp add: digits_val_def)

lemma digits_val_dec_nat: "digits_val (dec_nat n) = n"
proof (induction n rule: dec_nat.induct)
  case (1 n)
  show ?case
  proof (cases "n < 10")
    case True
    then show ?thesis by (simp add: dec_nat.simps [of n] digits_val_def digit_char_val)
  next
    case False
    have "digits_val (dec_nat n) = 10 * digits_val (dec_nat (n div 10)) + n mod 10"
      using False by (simp add: dec_nat.simps [of n] digits_val_snoc digit_char_val)
    with "1.IH" [OF False] show ?thesis by simp
  qed
qed

lemma take_digits:
  assumes "no_digit_ahead rest"
  shows "takeWhile is_digit (dec_nat n @ rest) = dec_nat n"
    and "dropWhile is_digit (dec_nat n @ rest) = rest"
proof -
  have all: "\<forall>c\<in>set (dec_nat n). is_digit c" by (simp add: dec_nat_digits)
  from assms have t: "takeWhile is_digit rest = []" and d: "dropWhile is_digit rest = rest"
    by (cases rest; simp add: no_digit_ahead_def)+
  from all t show "takeWhile is_digit (dec_nat n @ rest) = dec_nat n"
    by (simp add: takeWhile_append2)
  from all d show "dropWhile is_digit (dec_nat n @ rest) = rest"
    by (simp add: dropWhile_append2)
qed

lemma dec_nat_head:
  "\<exists>c cs. dec_nat n = c # cs \<and> is_digit c"
proof -
  from dec_nat_nonempty [of n] obtain c cs where "dec_nat n = c # cs" by (cases "dec_nat n") auto
  moreover with dec_nat_digits [of c n] have "is_digit c" by simp
  ultimately show ?thesis by blast
qed

lemma scan_int_dec_nat:
  assumes "no_digit_ahead rest"
  shows "scan_int (dec_nat n @ rest) = Some (int n, rest)"
proof -
  from dec_nat_head obtain c cs where split: "dec_nat n = c # cs" and c: "is_digit c" by blast
  from c have ns: "\<not> is_space c" and sg: "c \<noteq> CHR ''-''" "c \<noteq> CHR ''+''"
    using is_digit_not_space is_digit_not_sign by blast+
  have s1: "dropWhile is_space (dec_nat n @ rest) = dec_nat n @ rest"
    using ns by (simp add: split)
  have hd: "hd (dec_nat n @ rest) = c" by (simp add: split)
  have ne: "dec_nat n @ rest \<noteq> []" by (simp add: split)
  show ?thesis
    unfolding scan_int_def s1 Let_def hd
    using sg ne take_digits [OF assms, of n] dec_nat_nonempty [of n]
    by (simp add: digits_val_dec_nat)
qed

lemma scan_int_dec_int:
  assumes "no_digit_ahead rest"
  shows "scan_int (dec_int i @ rest) = Some (i, rest)"
proof (cases "i < 0")
  case False
  with scan_int_dec_nat [OF assms, of "nat i"] show ?thesis by (simp add: dec_int_def)
next
  case True
  have sp: "\<not> is_space CHR ''-''" by (simp add: is_space_def)
  have "scan_int (CHR ''-'' # dec_nat (nat (- i)) @ rest) = Some (- int (nat (- i)), rest)"
    unfolding scan_int_def Let_def
    using sp take_digits [OF assms, of "nat (- i)"] dec_nat_nonempty [of "nat (- i)"]
    by (simp add: digits_val_dec_nat)
  with True show ?thesis by (simp add: dec_int_def)
qed

subsection \<open>Literals and the name\<close>

lemma match_lit_append: "match_lit lit (lit @ rest) = Some rest"
  by (induction lit) simp_all

lemma scan_name_comma:
  assumes "nm \<noteq> []" "length nm \<le> 127" "CHR '','' \<notin> set nm"
  shows "scan_name (nm @ CHR '','' # rest) = Some (nm, CHR '','' # rest)"
proof -
  have "take 127 (nm @ CHR '','' # rest) = nm @ take (127 - length nm) (CHR '','' # rest)"
    using assms(2) by simp
  moreover have "takeWhile (\<lambda>c. c \<noteq> CHR '','') (take (127 - length nm) (CHR '','' # rest)) = []"
    by (cases "127 - length nm") simp_all
  moreover from assms(3) have "\<And>c. c \<in> set nm \<Longrightarrow> c \<noteq> CHR '',''" by auto
  ultimately have "takeWhile (\<lambda>c. c \<noteq> CHR '','') (take 127 (nm @ CHR '','' # rest)) = nm"
    by (simp add: takeWhile_append2)
  with assms(1) show ?thesis by (simp add: scan_name_def)
qed

lemma scan_name_empty: "scan_name (CHR '','' # rest) = None"
  by (simp add: scan_name_def)

subsection \<open>Reading back a printed event\<close>

lemma no_digit_ahead_comma: "no_digit_ahead (CHR '','' # s)"
  by (simp add: no_digit_ahead_def is_digit_def)

lemma no_digit_ahead_brace: "no_digit_ahead ''}''"
  by (simp add: no_digit_ahead_def is_digit_def)

lemma word_of_int_unat: "word_of_int (int (unat w)) = w"
  by simp

lemma word_of_int_sint_id: "(word_of_int (sint w) :: 'a::len word) = w"
  by simp

lemma sint_range_32: "- (2 ^ 31) \<le> sint (w :: 32 word) \<and> sint w < 2 ^ 31"
  using sint_ge [of w] sint_lt [of w] by simp

lemma sint_range_64: "- (2 ^ 63) \<le> sint (w :: 64 word) \<and> sint w < 2 ^ 63"
  using sint_ge [of w] sint_lt [of w] by simp

lemma unat_range_32: "0 \<le> int (unat (w :: 32 word)) \<and> int (unat w) < 2 ^ 32"
  using unsigned_less [of w, where 'a = nat] by (simp flip: of_nat_less_iff [where 'a = int])

lemma sscanf_event_text:
  assumes "ev_name e \<noteq> []" "length (ev_name e) < GOON_MAX_NAME_LEN"
    and "CHR '','' \<notin> set (ev_name e)"
  shows "sscanf_event (event_text e) =
         Some (Some (ev_id e, ev_name e, ev_priority e, ev_timestamp e))"
proof -
  define t3 where "t3 = dec_int (sint (ev_timestamp e)) @ ''}''"
  define l3 where "l3 = '',timestamp:'' @ t3"
  define t2 where "t2 = dec_int (sint (ev_priority e)) @ l3"
  define l2 where "l2 = '',priority:'' @ t2"
  define t1 where "t1 = ev_name e @ l2"
  define l1 where "l1 = '',name:'' @ t1"
  define t0 where "t0 = dec_nat (unat (ev_id e)) @ l1"
  have shape: "event_text e = ''EVENT{id:'' @ t0"
    by (simp add: event_text_def t0_def l1_def t1_def l2_def t2_def l3_def t3_def)
  have l1c: "l1 = CHR '','' # ''name:'' @ t1" by (simp add: l1_def)
  have l2c: "l2 = CHR '','' # ''priority:'' @ t2" by (simp add: l2_def)
  have l3c: "l3 = CHR '','' # ''timestamp:'' @ t3" by (simp add: l3_def)
  have m0: "match_lit ''EVENT{id:'' (event_text e) = Some t0"
    unfolding shape by (rule match_lit_append)
  have s0: "scan_int t0 = Some (int (unat (ev_id e)), l1)"
    unfolding t0_def by (rule scan_int_dec_nat) (simp add: l1c no_digit_ahead_comma)
  have m1: "match_lit '',name:'' l1 = Some t1"
    unfolding l1_def by (rule match_lit_append)
  from assms(2) have len: "length (ev_name e) \<le> 127" by (simp add: GOON_MAX_NAME_LEN_def)
  have s1: "scan_name t1 = Some (ev_name e, l2)"
    unfolding t1_def l2c by (rule scan_name_comma [OF assms(1) len assms(3)])
  have m2: "match_lit '',priority:'' l2 = Some t2"
    unfolding l2_def by (rule match_lit_append)
  have s2: "scan_int t2 = Some (sint (ev_priority e), l3)"
    unfolding t2_def by (rule scan_int_dec_int) (simp add: l3c no_digit_ahead_comma)
  have m3: "match_lit '',timestamp:'' l3 = Some t3"
    unfolding l3_def by (rule match_lit_append)
  have s3: "scan_int t3 = Some (sint (ev_timestamp e), ''}'')"
    unfolding t3_def by (rule scan_int_dec_int) (rule no_digit_ahead_brace)
  show ?thesis
    using unat_range_32 [of "ev_id e"] sint_range_32 [of "ev_priority e"]
      sint_range_64 [of "ev_timestamp e"]
    by (simp add: sscanf_event_def m0 s0 m1 s1 m2 s2 m3 s3 word_of_int_unat)
qed

text \<open>With an empty name the scan stops at the name: two of four conversions.\<close>

lemma sscanf_event_empty_name:
  assumes "ev_name e = []"
  shows "sscanf_event (event_text e) = Some None"
proof -
  define t1 where "t1 = '',priority:'' @ dec_int (sint (ev_priority e)) @
     '',timestamp:'' @ dec_int (sint (ev_timestamp e)) @ ''}''"
  define l1 where "l1 = '',name:'' @ t1"
  define t0 where "t0 = dec_nat (unat (ev_id e)) @ l1"
  have shape: "event_text e = ''EVENT{id:'' @ t0"
    using assms by (simp add: event_text_def t0_def l1_def t1_def)
  have l1c: "l1 = CHR '','' # ''name:'' @ t1" by (simp add: l1_def)
  have t1c: "t1 = CHR '','' # ''priority:'' @ dec_int (sint (ev_priority e)) @
     '',timestamp:'' @ dec_int (sint (ev_timestamp e)) @ ''}''" by (simp add: t1_def)
  have m0: "match_lit ''EVENT{id:'' (event_text e) = Some t0"
    unfolding shape by (rule match_lit_append)
  have s0: "scan_int t0 = Some (int (unat (ev_id e)), l1)"
    unfolding t0_def by (rule scan_int_dec_nat) (simp add: l1c no_digit_ahead_comma)
  have m1: "match_lit '',name:'' l1 = Some t1"
    unfolding l1_def by (rule match_lit_append)
  have s1: "scan_name t1 = None"
    unfolding t1c by (rule scan_name_empty)
  show ?thesis
    using unat_range_32 [of "ev_id e"]
    by (simp add: sscanf_event_def m0 s0 m1 s1)
qed

section \<open>The example states\<close>

lemmas ex_defs = ex_mem_def ex_mem0_def ex_ctx_def ex_ctx0_def ex_event_def ex_handler_def
  ex_reject_def ex_count_def ex_meddle_def ex_code_def

lemma d_round_0: "d_round 0 = Num 0"
  by (simp add: d_round_def)

lemma d_round_1: "d_round 1 = Num 1"
  by code_simp

lemma d_of_int_0: "d_of_int 0 = Num 0"
  by (simp add: d_of_int_def d_round_0)

lemma d_of_int_1: "d_of_int 1 = Num 1"
  by (simp add: d_of_int_def d_round_1)

text \<open>1000 ticks of the clock are 1 ms.\<close>

lemma exec_time_1000: "exec_time_ms 1000 = Num 1"
  by code_simp

lemma ex_account:
  "h_call_count hv = 0 \<Longrightarrow> h_avg_exec_time hv = Num 0 \<Longrightarrow>
   handler_account hv r (Num 1) =
     hv\<lparr>h_call_count := 1, h_avg_exec_time := Num 1,
        h_error_count := (if r \<noteq> GOON_SUCCESS then h_error_count hv + 1 else h_error_count hv)\<rparr>"
  by (simp add: handler_account_def Let_def d_of_int_0 d_of_int_1 d_round_0 d_round_1)

lemma ex_run_handlers:
  "run_handlers ex_code (Some 10) 101 ctx (ex_mem\<lparr>m_events := [101 \<mapsto> ex_event 1 ''hello'']\<rparr>) =
     Some (ctx, ex_mem_after\<lparr>m_events := [101 \<mapsto> ex_event 1 ''hello'']\<rparr>)"
  by (simp add: run_handlers.simps invoke_handler_def ex_defs ex_mem_after_def
        ex_account exec_time_1000 Let_def GOON_ERROR_def GOON_SUCCESS_def fun_upd_twist)

lemma ex_process:
  "goon_context_process_events ex_code ex_ctx ex_mem = Some (1, drained ex_ctx 1, ex_mem_after)"
proof -
  have pop: "goon_queue_pop (m_events ex_mem) (ctx_event_queue ex_ctx) =
     Some (Some 101, [101 \<mapsto> ex_event 1 ''hello''],
           \<lparr>q_head = None, q_tail = None, q_size = 0, q_max_size = 1024\<rparr>)"
    by (simp add: goon_queue_pop_def ex_defs)
  have destroy: "goon_event_destroy (Some 101) (ex_mem_after\<lparr>m_events := [101 \<mapsto> ex_event 1 ''hello'']\<rparr>) =
      Some ex_mem_after"
    by (simp add: goon_event_destroy_def ex_mem_after_def ex_event_def)
  have nonempty: "\<not> goon_queue_is_empty (ctx_event_queue ex_ctx)"
    by (simp add: goon_queue_is_empty_def ex_defs)
  have handlers: "ctx_handlers ex_ctx = Some 10" by (simp add: ex_defs)
  have first: "process_loop ex_code ex_ctx ex_mem 0 =
      process_loop ex_code
        (ex_ctx\<lparr>ctx_event_queue := \<lparr>q_head = None, q_tail = None, q_size = 0, q_max_size = 1024\<rparr>,
                ctx_total_events_processed := ctx_total_events_processed ex_ctx + 1\<rparr>)
        ex_mem_after 1"
    by (subst process_loop.simps) (simp add: nonempty pop handlers ex_run_handlers destroy)
  have last: "process_loop ex_code
        (ex_ctx\<lparr>ctx_event_queue := \<lparr>q_head = None, q_tail = None, q_size = 0, q_max_size = 1024\<rparr>,
                ctx_total_events_processed := ctx_total_events_processed ex_ctx + 1\<rparr>)
        ex_mem_after 1 = Some (1, drained ex_ctx 1, ex_mem_after)"
    by (subst process_loop.simps) (simp add: goon_queue_is_empty_def drained_def ex_defs)
  have "ctx_state ex_ctx = GOON_STATE_RUNNING" by (simp add: ex_defs)
  with first last show ?thesis by (simp add: goon_context_process_events_def)
qed




text \<open>The counting and the rejecting callback change the client's world and nothing else.\<close>

lemma ex_code_world:
  "f = 501 \<or> f = 502 \<Longrightarrow> ex_code f ctx e user_data m = Some (r, ctx', m') \<Longrightarrow>
   ctx' = ctx \<and> (\<exists>w. m' = m\<lparr>m_world := w\<rparr>)"
  by (auto simp: ex_code_def ex_count_def ex_reject_def split: if_splits)

lemma ex_obeys: "obeys_contract (ex_code 501)" "obeys_contract (ex_code 502)"
  by (simp_all add: obeys_contract_def ex_code_def ex_count_def ex_reject_def dispatch_frame_refl
        dispatch_frame_def handlers_kept_def events_kept_def)

lemma ex_keeps_enabled: "f = 501 \<or> f = 502 \<Longrightarrow> keeps_enabled (ex_code f)"
  unfolding keeps_enabled_def by (auto dest!: ex_code_world)

lemma ex_keeps_statistics: "f = 501 \<or> f = 502 \<Longrightarrow> keeps_statistics (ex_code f)"
  unfolding keeps_statistics_def by (auto dest!: ex_code_world)

lemma ex_callbacks_obey: "callbacks_are obeys_contract ex_code ex_mem0 [12, 11, 10]"
  "callbacks_are obeys_contract ex_code ex_mem [10, 11, 12]"
  by (simp_all add: callbacks_are_def ex_mem_def ex_mem0_def ex_handler_def ex_obeys)

lemma ex_callbacks_keep:
  "callbacks_are keeps_enabled ex_code ex_mem0 [12, 11, 10]"
  "callbacks_are keeps_enabled ex_code ex_mem [10, 11, 12]"
  "callbacks_are keeps_statistics ex_code ex_mem [10, 11, 12]"
  by (simp_all add: callbacks_are_def ex_mem_def ex_mem0_def ex_handler_def
        ex_keeps_enabled ex_keeps_statistics)

subsection \<open>The pass with two events\<close>











subsection \<open>The pass with the meddling callback\<close>



lemma goon_stop_eq:
  "goon_stop code ctx m = Some (GOON_SUCCESS, ctx\<lparr>ctx_state := GOON_STATE_TERMINATED\<rparr>, m)"
  by (simp add: goon_stop_def goon_context_set_state_def goon_context_process_events_def)

lemmas char_eval = digit_char_def char_of_def bit_iff_odd_drop_bit drop_bit_eq_div

lemma ex_event_text_empty:
  "event_text (ex_event 1 []) = ''EVENT{id:1,name:,priority:1,timestamp:1700000000}''"
  by (simp add: event_text_def ex_event_def dec_int_def dec_nat.simps GOON_PRIORITY_NORMAL_def
        char_eval)

lemma ex_event_text_hello:
  "event_text (ex_event 1 ''hello'') = ''EVENT{id:1,name:hello,priority:1,timestamp:1700000000}''"
  by (simp add: event_text_def ex_event_def dec_int_def dec_nat.simps GOON_PRIORITY_NORMAL_def
        char_eval)

section \<open>C1: what stop does to the queue\<close>

text \<open>
  Claim C1: \<open>stop\<close> moves the context to \<open>Stopping\<close>, runs a final process pass that drains
  the queue, invoking the enabled handlers on every queued event, and then moves the
  context to \<open>Terminated\<close>.

  \<^verbatim>\<open>goon_stop\<close> sets the state to \<open>GOON_STATE_STOPPING\<close> before it calls
  \<^verbatim>\<open>goon_context_process_events\<close> under the comment \<^verbatim>\<open>// Process remaining events\<close>, and
  that function returns \<open>GOON_ERROR\<close> at once in any state but \<open>GOON_STATE_RUNNING\<close>.
  In the running context \<open>ex_ctx\<close>, with one queued event and two enabled handlers,
  \<open>goon_stop\<close> returns with the state \<open>Terminated\<close>, the event still queued and no
  handler invoked; a process pass in the running state drains that same queue.
\<close>

theorem goon_stop_leaves_queue:
  "goon_stop ex_code ex_ctx ex_mem = Some (GOON_SUCCESS, ex_ctx\<lparr>ctx_state := GOON_STATE_TERMINATED\<rparr>, ex_mem) \<and>
   goon_queue_size (ctx_event_queue ex_ctx) = 1 \<and> m_calls ex_mem = [] \<and>
   goon_context_process_events ex_code ex_ctx ex_mem = Some (1, drained ex_ctx 1, ex_mem_after)"
  using goon_stop_eq [of ex_code ex_ctx ex_mem] ex_process
  by (simp add: goon_queue_size_def ex_defs)

section \<open>C2: the driver's precondition\<close>

text \<open>
  Claim C2: on a context whose state is not \<open>Running\<close>, whatever the queue holds,
  \<open>process_events\<close> returns \<open>GOON_ERROR\<close>, pops and destroys no event, and changes no
  handler's statistics.

  The call returns the context (with its queue) and the whole memory (events, handler
  records, the client's world, the clock) as they were.
\<close>

theorem process_events_not_running:
  assumes "ctx_state ctx \<noteq> GOON_STATE_RUNNING"
  shows "goon_context_process_events code ctx m = Some (GOON_ERROR, ctx, m)"
  using assms by (simp add: goon_context_process_events_def)

theorem process_events_not_running_witness:
  "ctx_state (ex_ctx\<lparr>ctx_state := GOON_STATE_PAUSED\<rparr>) \<noteq> GOON_STATE_RUNNING \<and>
   goon_context_process_events ex_code (ex_ctx\<lparr>ctx_state := GOON_STATE_PAUSED\<rparr>) ex_mem =
     Some (GOON_ERROR, ex_ctx\<lparr>ctx_state := GOON_STATE_PAUSED\<rparr>, ex_mem)"
proof -
  have paused: "ctx_state (ex_ctx\<lparr>ctx_state := GOON_STATE_PAUSED\<rparr>) \<noteq> GOON_STATE_RUNNING" by simp
  from paused process_events_not_running [OF paused, of ex_code ex_mem] show ?thesis by (intro conjI)
qed

section \<open>C3: handlers run in the reverse of registration order\<close>

text \<open>
  Claim C3: after the registrations \<open>h1, ..., hn\<close> on a running context, one
  \<open>process_events\<close> call on one queued event invokes the enabled handlers in the order
  \<open>hn, ..., h1\<close>.

  The handlers \<open>hs\<close> are distinct allocated handler objects that are not yet in the
  registry, which holds \<open>old\<close> (empty on a fresh context), and the callbacks obey the
  handler contract. All the registrations succeed and the pass returns 1. What the pass
  does is what the specification says of a dispatch to the handlers in the order
  \<open>rev hs\<close> followed by \<open>old\<close>: each one that is enabled when its turn comes is called,
  with the context, the event and its user data, on the memory the calls before it have
  left. If no callback changes an \<^verbatim>\<open>enabled\<close> flag, the handlers invoked are the
  enabled ones among \<open>rev hs\<close> followed by \<open>old\<close>, in this order, each on the event \<open>e\<close>.
\<close>

theorem handler_order:
  assumes running: "ctx_state ctx = GOON_STATE_RUNNING"
    and registry: "h_path (m_handlers m) (ctx_handlers ctx) old"
    and new: "distinct hs" "set hs \<inter> set old = {}" "set hs \<subseteq> dom (m_handlers m)"
    and queue: "queue_inv (m_events m) (ctx_event_queue ctx) [e]"
    and contract: "callbacks_are obeys_contract code m (hs @ old)"
  shows "\<exists>ctx1 m1 ctx2 m2 ks.
      register_all ctx m hs = Some (replicate (length hs) GOON_SUCCESS, ctx1, m1) \<and>
      goon_context_process_events code ctx1 m1 = Some (1, ctx2, m2) \<and>
      spec_pass code (rev hs @ old) [e] ctx1 m1 = Some (ctx2, m2) \<and>
      m_calls m2 = m_calls m @ ks \<and>
      (callbacks_are keeps_enabled code m (hs @ old) \<longrightarrow>
         map k_handler ks = filter (handler_enabled m) (rev hs @ old) \<and>
         (\<forall>k\<in>set ks. k_event k = e))"
proof -
  from register_all_spec [OF registry new] obtain ctx1 m1 where
    reg: "register_all ctx m hs = Some (replicate (length hs) GOON_SUCCESS, ctx1, m1)"
    and path1: "h_path (m_handlers m1) (ctx_handlers ctx1) (rev hs @ old)"
    and same: "handler_enabled m1 = handler_enabled m" "ctx_state ctx1 = ctx_state ctx"
      "ctx_event_queue ctx1 = ctx_event_queue ctx" "m_events m1 = m_events m"
      "m_calls m1 = m_calls m"
    and funcs: "\<forall>b. map_option h_func (m_handlers m1 b) = map_option h_func (m_handlers m b)"
    by blast
  have sets: "set (rev hs @ old) = set (hs @ old)" by simp
  have cb: "callbacks_are P code m1 (rev hs @ old) = callbacks_are P code m (hs @ old)" for P
    by (simp only: callbacks_are_funcs [OF funcs] callbacks_are_set [OF sets])
  from contract have obs1: "callbacks_are obeys_contract code m1 (rev hs @ old)"
    by (simp only: cb)
  from running same have running1: "ctx_state ctx1 = GOON_STATE_RUNNING" by simp
  from queue same have queue1: "queue_inv (m_events m1) (ctx_event_queue ctx1) [e]" by simp
  have "length [e] < 2 ^ 31" by simp
  from process_events_pass [OF running1 queue1 path1 obs1 this] obtain ctx2 m2 ks where
    run: "goon_context_process_events code ctx1 m1 = Some (int (length [e]), ctx2, m2)"
    and spec: "spec_pass code (rev hs @ old) [e] ctx1 m1 = Some (ctx2, m2)"
    and post: "pass_post code ctx1 m1 ctx2 m2 [e] (rev hs @ old) ks" by blast
  from post same have calls: "m_calls m2 = m_calls m @ ks" by (simp add: pass_post_def)
  have order: "map k_handler ks = filter (handler_enabled m) (rev hs @ old) \<and>
               (\<forall>k\<in>set ks. k_event k = e)"
    if "callbacks_are keeps_enabled code m (hs @ old)"
  proof -
    from that have "callbacks_are keeps_enabled code m1 (rev hs @ old)" by (simp only: cb)
    with post same have pairs: "map (\<lambda>k. (k_event k, k_handler k)) ks =
                List.product [e] (filter (handler_enabled m) (rev hs @ old))"
      by (simp add: pass_post_def)
    then have "map snd (map (\<lambda>k. (k_event k, k_handler k)) ks) =
               map snd (map (Pair e) (filter (handler_enabled m) (rev hs @ old)))" by simp
    then have 1: "map k_handler ks = filter (handler_enabled m) (rev hs @ old)"
      by (simp add: comp_def)
    from pairs have "map fst (map (\<lambda>k. (k_event k, k_handler k)) ks) =
                     map fst (map (Pair e) (filter (handler_enabled m) (rev hs @ old)))" by simp
    then have "map k_event ks = map (\<lambda>x. e) (filter (handler_enabled m) (rev hs @ old))"
      by (simp add: comp_def)
    then have "set (map k_event ks) \<subseteq> {e}" by auto
    then have "\<forall>k\<in>set ks. k_event k = e" by auto
    with 1 show ?thesis by simp
  qed
  from run have "goon_context_process_events code ctx1 m1 = Some (1, ctx2, m2)" by simp
  with reg spec calls order show ?thesis by (iprover intro: exI conjI impI)
qed

theorem handler_order_witness:
  "ctx_state ex_ctx0 = GOON_STATE_RUNNING \<and>
   queue_inv (m_events ex_mem0) (ctx_event_queue ex_ctx0) [101] \<and>
   (\<exists>ctx1 m1 ctx2 m2 ks.
      register_all ex_ctx0 ex_mem0 [12, 11, 10] =
        Some ([GOON_SUCCESS, GOON_SUCCESS, GOON_SUCCESS], ctx1, m1) \<and>
      goon_context_process_events ex_code ctx1 m1 = Some (1, ctx2, m2) \<and>
      spec_pass ex_code [10, 11, 12] [101] ctx1 m1 = Some (ctx2, m2) \<and>
      m_calls m2 = ks \<and> map k_handler ks = [10, 11] \<and> map k_result ks = [GOON_ERROR, GOON_SUCCESS] \<and>
      m_world ex_mem0 = 0 \<and> m_world m2 = 1)"
proof -
  have running: "ctx_state ex_ctx0 = GOON_STATE_RUNNING" by (simp add: ex_defs)
  have registry: "h_path (m_handlers ex_mem0) (ctx_handlers ex_ctx0) []" by (simp add: ex_defs)
  have new: "distinct [12, 11, 10 :: nat]" "set [12, 11, 10] \<inter> set [] = {}"
    "set [12, 11, 10] \<subseteq> dom (m_handlers ex_mem0)" by (simp_all add: ex_defs)
  have queue: "queue_inv (m_events ex_mem0) (ctx_event_queue ex_ctx0) [101]"
    by (simp add: queue_inv_def ex_defs)
  have contract: "callbacks_are obeys_contract ex_code ex_mem0 ([12, 11, 10] @ [])"
    using ex_callbacks_obey(1) by simp
  have en: "filter (handler_enabled ex_mem0) (rev [12, 11, 10] @ []) = [10, 11]"
    by (simp add: handler_enabled_def ex_defs)
  have regs: "register_all ex_ctx0 ex_mem0 [12, 11, 10] =
        Some ([GOON_SUCCESS, GOON_SUCCESS, GOON_SUCCESS], ex_ctx, ex_mem)"
    by (simp add: goon_context_register_handler_def ex_defs fun_upd_twist)
  from handler_order [OF running registry new queue contract] obtain ctx1 m1 ctx2 m2 ks where
    r: "register_all ex_ctx0 ex_mem0 [12, 11, 10] =
       Some (replicate (length [12, 11, 10 :: nat]) GOON_SUCCESS, ctx1, m1)"
    and p: "goon_context_process_events ex_code ctx1 m1 = Some (1, ctx2, m2)"
    and s: "spec_pass ex_code (rev [12, 11, 10] @ []) [101] ctx1 m1 = Some (ctx2, m2)"
    and c: "m_calls m2 = m_calls ex_mem0 @ ks"
    and ord: "callbacks_are keeps_enabled ex_code ex_mem0 ([12, 11, 10] @ []) \<longrightarrow>
        map k_handler ks = filter (handler_enabled ex_mem0) (rev [12, 11, 10] @ []) \<and>
        (\<forall>k\<in>set ks. k_event k = 101)" by blast
  from r regs have eq: "ctx1 = ex_ctx" "m1 = ex_mem" by simp_all
  from r have r': "register_all ex_ctx0 ex_mem0 [12, 11, 10] =
        Some ([GOON_SUCCESS, GOON_SUCCESS, GOON_SUCCESS], ctx1, m1)" by simp
  from s have s': "spec_pass ex_code [10, 11, 12] [101] ctx1 m1 = Some (ctx2, m2)" by simp
  from c have c': "m_calls m2 = ks" by (simp add: ex_mem0_def)
  have "callbacks_are keeps_enabled ex_code ex_mem0 ([12, 11, 10] @ [])"
    using ex_callbacks_keep(1) by simp
  with ord have "map k_handler ks = filter (handler_enabled ex_mem0) (rev [12, 11, 10] @ [])"
    by blast
  then have ord': "map k_handler ks = [10, 11]" by (simp only: en)
  from p eq ex_process have m2: "m2 = ex_mem_after" by simp
  from c' m2 have "ks = m_calls ex_mem_after" by simp
  then have res: "map k_result ks = [GOON_ERROR, GOON_SUCCESS]"
    by (simp add: ex_mem_after_def)
  from m2 have w2: "m_world m2 = 1" by (simp add: ex_mem_after_def)
  have w0: "m_world ex_mem0 = 0" by (simp add: ex_mem0_def)
  from r' p s' c' ord' res w0 w2 have "\<exists>ctx1 m1 ctx2 m2 ks.
      register_all ex_ctx0 ex_mem0 [12, 11, 10] =
        Some ([GOON_SUCCESS, GOON_SUCCESS, GOON_SUCCESS], ctx1, m1) \<and>
      goon_context_process_events ex_code ctx1 m1 = Some (1, ctx2, m2) \<and>
      spec_pass ex_code [10, 11, 12] [101] ctx1 m1 = Some (ctx2, m2) \<and>
      m_calls m2 = ks \<and> map k_handler ks = [10, 11] \<and> map k_result ks = [GOON_ERROR, GOON_SUCCESS] \<and>
      m_world ex_mem0 = 0 \<and> m_world m2 = 1" by (iprover intro: exI conjI)
  with running queue show ?thesis by (iprover intro: conjI)
qed

section \<open>C4: the queue is first in, first out\<close>

text \<open>
  Claim C4: after successful calls \<open>push(e1), ..., push(en)\<close>, the following \<open>pop\<close> calls
  return \<open>e1, ..., en\<close> in this order, and \<open>pop\<close> on an empty queue returns \<^verbatim>\<open>NULL\<close>.

  The queue is well-formed and holds \<open>xs\<close> (empty for a new queue); the events \<open>es\<close> are
  distinct allocated events that are not in it, and there is room for them. Then every
  push returns \<open>GOON_SUCCESS\<close>, the next pops return \<open>xs\<close> and then \<open>es\<close> in order, one
  more pop returns \<^verbatim>\<open>NULL\<close> and changes nothing, and all that changed in the events is
  their links.
\<close>

theorem queue_fifo:
  assumes inv: "queue_inv h q xs"
    and es: "distinct es" "set es \<inter> set xs = {}" "set es \<subseteq> dom h"
    and room: "length xs + length es \<le> unat (q_max_size q)"
  shows "\<exists>h1 q1 h2 q2.
      push_all h q es = Some (replicate (length es) GOON_SUCCESS, h1, q1) \<and>
      pop_n (length xs + length es) h1 q1 = Some (map Some (xs @ es), h2, q2) \<and>
      goon_queue_pop h2 q2 = Some (None, h2, q2) \<and>
      only_links_changed h h2"
proof -
  from push_all_inv [OF inv es room] obtain h1 q1 where
    push: "push_all h q es = Some (replicate (length es) GOON_SUCCESS, h1, q1)"
    and inv1: "queue_inv h1 q1 (xs @ es)" and step1: "only_links_changed h h1" by blast
  from pop_n_inv [OF inv1] obtain h2 q2 where
    pop: "pop_n (length xs + length es) h1 q1 = Some (map Some (xs @ es), h2, q2)"
    and inv2: "queue_inv h2 q2 []" and step2: "only_links_changed h1 h2" by auto
  from push pop pop_empty [OF inv2] only_links_changed_trans [OF step1 step2]
  show ?thesis by blast
qed

theorem queue_fifo_witness:
  "queue_inv ex_events ex_queue [] \<and>
   (\<exists>h1 q1 h2 q2.
      push_all ex_events ex_queue [101, 102] = Some ([GOON_SUCCESS, GOON_SUCCESS], h1, q1) \<and>
      pop_n 2 h1 q1 = Some ([Some 101, Some 102], h2, q2) \<and>
      goon_queue_pop h2 q2 = Some (None, h2, q2))"
proof -
  have inv: "queue_inv ex_events ex_queue []" by (simp add: queue_inv_def ex_queue_def)
  have es: "distinct [101, 102 :: nat]" "set [101, 102] \<inter> set [] = {}"
    "set [101, 102] \<subseteq> dom ex_events" by (simp_all add: ex_events_def)
  have room: "length ([] :: nat list) + length [101, 102 :: nat] \<le> unat (q_max_size ex_queue)"
    by (simp add: ex_queue_def)
  from queue_fifo [OF inv es room] obtain h1 q1 h2 q2 where
    a: "push_all ex_events ex_queue [101, 102] =
          Some (replicate (length [101, 102 :: nat]) GOON_SUCCESS, h1, q1)"
    and b: "pop_n (length ([] :: nat list) + length [101, 102 :: nat]) h1 q1 =
          Some (map Some ([] @ [101, 102]), h2, q2)"
    and c: "goon_queue_pop h2 q2 = Some (None, h2, q2)" by blast
  from a have a': "push_all ex_events ex_queue [101, 102] = Some ([GOON_SUCCESS, GOON_SUCCESS], h1, q1)"
    by simp
  have "length ([] :: nat list) + length [101, 102 :: nat] = 2" by simp
  with b have b': "pop_n 2 h1 q1 = Some ([Some 101, Some 102], h2, q2)" by (simp only: append_Nil list.map)
  from a' b' c have "\<exists>h1 q1 h2 q2.
      push_all ex_events ex_queue [101, 102] = Some ([GOON_SUCCESS, GOON_SUCCESS], h1, q1) \<and>
      pop_n 2 h1 q1 = Some ([Some 101, Some 102], h2, q2) \<and>
      goon_queue_pop h2 q2 = Some (None, h2, q2)" by (iprover intro: exI conjI)
  with inv show ?thesis by (iprover intro: conjI)
qed

section \<open>C5: a push onto a full queue\<close>

text \<open>
  Claim C5: on a queue whose size equals its maximum, \<open>push\<close> returns
  \<open>GOON_ERROR_OVERFLOW\<close> and leaves size, head, tail and the links of the queued events
  as they were.

  The call returns the queue struct and the event heap unchanged, for every event
  pointer that is not \<^verbatim>\<open>NULL\<close>.
\<close>

theorem queue_push_full:
  assumes "q_size q = q_max_size q"
  shows "goon_queue_push h q (Some e) = Some (GOON_ERROR_OVERFLOW, h, q)"
  using assms by (simp add: goon_queue_push_def)

theorem queue_push_full_witness:
  "q_size ex_queue_full = q_max_size ex_queue_full \<and>
   queue_inv ex_events_linked ex_queue_full [101, 102] \<and>
   goon_queue_push ex_events_linked ex_queue_full (Some 103) =
     Some (GOON_ERROR_OVERFLOW, ex_events_linked, ex_queue_full)"
proof -
  have full: "q_size ex_queue_full = q_max_size ex_queue_full" by (simp add: ex_queue_full_def)
  have inv: "queue_inv ex_events_linked ex_queue_full [101, 102]"
    by (simp add: queue_inv_def ex_queue_full_def ex_events_linked_def ex_event_def)
  from full inv queue_push_full [OF full, of ex_events_linked 103] show ?thesis
    by (iprover intro: conjI)
qed

section \<open>C6: eviction from a full cache\<close>

text \<open>
  Claim C6, as stated: on a full cache, a set with a key that is not present overwrites the
  slot of minimal timestamp (lowest index on a tie) with the new key, a copy of the value,
  the size and a fresh timestamp; the other 63 slots and the count are unchanged.

  The code does not do this for every such set. The key is stored through \<^verbatim>\<open>strncpy\<close>
  with a bound of 127 bytes, so a longer key is stored cut, and the new key itself is
  in no slot afterwards; and when \<^verbatim>\<open>malloc\<close> fails the function returns
  \<open>GOON_ERROR_OUT_OF_MEMORY\<close> with the key already written and the value \<^verbatim>\<open>NULL\<close>.
  Both at \<open>ex_cache\<close>, whose eviction slot is slot 1:
\<close>

theorem cache_set_counterexample:
  "ex_long_key \<notin> set (c_keys ex_cache) \<and>
   fst (goon_cache_set ex_cache (Some ex_long_key) (Some (\<lambda>i. 0)) 2 True 9) = GOON_SUCCESS \<and>
   ex_long_key \<notin> set (c_keys (snd (goon_cache_set ex_cache (Some ex_long_key) (Some (\<lambda>i. 0)) 2 True 9))) \<and>
   goon_cache_set ex_cache (Some ''fresh'') (Some (\<lambda>i. 0)) 2 False 9 =
     (GOON_ERROR_OUT_OF_MEMORY,
      ex_cache\<lparr>c_keys := (c_keys ex_cache)[1 := ''fresh''],
               c_values := (c_values ex_cache)[1 := None]\<rparr>)"
proof -
  have run: "goon_cache_set ex_cache (Some ex_long_key) (Some (\<lambda>i. 0)) 2 True 9 =
     (GOON_SUCCESS,
      ex_cache\<lparr>c_keys := (c_keys ex_cache)[1 := replicate 127 CHR ''k''],
               c_values := (c_values ex_cache)[1 := Some (value_copy (\<lambda>i. 0) 2)],
               c_sizes := (c_sizes ex_cache)[1 := 2],
               c_timestamps := (c_timestamps ex_cache)[1 := 9]\<rparr>)"
    unfolding ex_cache_set [OF ex_long_key_absent] name_copy_long
    by (simp add: cache_store_def)
  have oom: "goon_cache_set ex_cache (Some ''fresh'') (Some (\<lambda>i. 0)) 2 False 9 =
     (GOON_ERROR_OUT_OF_MEMORY,
      ex_cache\<lparr>c_keys := (c_keys ex_cache)[1 := ''fresh''],
               c_values := (c_values ex_cache)[1 := None]\<rparr>)"
    unfolding ex_cache_set [OF ex_fresh_absent] name_copy_fresh
    by (simp add: cache_store_def)
  have 1: "fst (goon_cache_set ex_cache (Some ex_long_key) (Some (\<lambda>i. 0)) 2 True 9) = GOON_SUCCESS"
    unfolding run by (rule fst_conv)
  have 2: "ex_long_key \<notin> set (c_keys (snd (goon_cache_set ex_cache (Some ex_long_key) (Some (\<lambda>i. 0)) 2 True 9)))"
    unfolding run using ex_gone by simp
  from ex_long_key_absent 1 2 oom show ?thesis by (intro conjI)
qed

text \<open>
  C6 as amended: on a full cache, a set with a key that is not present, whose value
  buffer is allocated, returns \<open>GOON_SUCCESS\<close> and overwrites exactly one slot \<open>idx\<close>: the
  slot of minimal timestamp, the lowest index among those on a tie. The slot then
  holds the first 127 bytes of the key (the key itself when it is no longer), the
  bytes \<open>value[0..size)\<close>, the size, and the time read by \<^verbatim>\<open>time(NULL)\<close>. Every other slot is
  unchanged and the count stays 64.
\<close>

theorem cache_set_evicts_oldest:
  assumes wf: "cache_wf c" and full: "c_count c = GOON_CACHE_SIZE"
    and absent: "key \<notin> set (c_keys c)"
  shows "\<exists>idx c'. goon_cache_set c (Some key) (Some v) n True now = (GOON_SUCCESS, c')
     \<and> idx < GOON_CACHE_SIZE
     \<and> (\<forall>j<GOON_CACHE_SIZE. sint (c_timestamps c ! idx) \<le> sint (c_timestamps c ! j))
     \<and> (\<forall>j<idx. sint (c_timestamps c ! idx) < sint (c_timestamps c ! j))
     \<and> cache_slot c' idx = (take 127 key, Some (value_copy v n), n, now)
     \<and> (\<forall>j<GOON_CACHE_SIZE. j \<noteq> idx \<longrightarrow> cache_slot c' j = cache_slot c j)
     \<and> c_count c' = GOON_CACHE_SIZE \<and> cache_wf c'"
proof -
  define idx where "idx = cache_oldest (c_timestamps c) 1 0 (c_timestamps c ! 0)"
  define c' where "c' = c\<lparr>c_keys := (c_keys c)[idx := name_copy key],
                          c_values := (c_values c)[idx := Some (value_copy v n)],
                          c_sizes := (c_sizes c)[idx := n],
                          c_timestamps := (c_timestamps c)[idx := now]\<rparr>"
  from cache_oldest_start [of "c_timestamps c"]
  have idx: "idx < GOON_CACHE_SIZE"
    and least: "\<forall>j<GOON_CACHE_SIZE. sint (c_timestamps c ! idx) \<le> sint (c_timestamps c ! j)"
    and first: "\<forall>j<idx. sint (c_timestamps c ! idx) < sint (c_timestamps c ! j)"
    unfolding idx_def by blast+
  from absent wf full have "\<forall>j<c_count c. c_keys c ! j \<noteq> key"
    by (auto simp: cache_wf_def)
  with full have run: "goon_cache_set c (Some key) (Some v) n True now = (GOON_SUCCESS, c')"
    by (simp add: cache_set_full cache_store_def idx_def c'_def)
  have slot: "cache_slot c' idx = (take 127 key, Some (value_copy v n), n, now)"
    using wf idx by (simp add: cache_slot_def c'_def cache_wf_def name_copy_def GOON_MAX_NAME_LEN_def)
  have others: "\<forall>j<GOON_CACHE_SIZE. j \<noteq> idx \<longrightarrow> cache_slot c' j = cache_slot c j"
    by (simp add: cache_slot_def c'_def)
  have rest: "c_count c' = GOON_CACHE_SIZE \<and> cache_wf c'"
    using wf full by (simp add: c'_def cache_wf_def)
  from run idx least first slot others rest show ?thesis by blast
qed

theorem cache_set_evicts_oldest_witness:
  "cache_wf ex_cache \<and> c_count ex_cache = GOON_CACHE_SIZE \<and> ''fresh'' \<notin> set (c_keys ex_cache) \<and>
   (\<exists>c'. goon_cache_set ex_cache (Some ''fresh'') (Some (\<lambda>i. 3)) 2 True 9 = (GOON_SUCCESS, c') \<and>
         cache_slot c' 1 = (''fresh'', Some [3, 3], 2, 9) \<and>
         cache_slot c' 0 = cache_slot ex_cache 0 \<and>
         c_count c' = 64)"
proof -
  have wf: "cache_wf ex_cache" and full: "c_count ex_cache = GOON_CACHE_SIZE"
    using ex_cache_wf by simp_all
  from cache_set_evicts_oldest [OF wf full ex_fresh_absent, of "\<lambda>i. 3" 2 9]
  obtain idx c' where run: "goon_cache_set ex_cache (Some ''fresh'') (Some (\<lambda>i. 3)) 2 True 9 = (GOON_SUCCESS, c')"
    and idx: "idx < GOON_CACHE_SIZE"
    and least: "\<forall>j<GOON_CACHE_SIZE. sint (c_timestamps ex_cache ! idx) \<le> sint (c_timestamps ex_cache ! j)"
    and first: "\<forall>j<idx. sint (c_timestamps ex_cache ! idx) < sint (c_timestamps ex_cache ! j)"
    and slot: "cache_slot c' idx = (take 127 ''fresh'', Some (value_copy (\<lambda>i. 3) 2), 2, 9)"
    and others: "\<forall>j<GOON_CACHE_SIZE. j \<noteq> idx \<longrightarrow> cache_slot c' j = cache_slot ex_cache j"
    and count: "c_count c' = GOON_CACHE_SIZE"
    by blast
  from idx have r: "idx < 64" by (simp add: GOON_CACHE_SIZE_def)
  from least have "sint (c_timestamps ex_cache ! idx) \<le> sint (c_timestamps ex_cache ! 1)"
    by (simp add: GOON_CACHE_SIZE_def)
  with r have "idx \<noteq> 0" by (auto simp: ex_cache_timestamp split: if_splits)
  moreover have "\<not> 1 < idx"
  proof
    assume "1 < idx"
    with first have "sint (c_timestamps ex_cache ! idx) < sint (c_timestamps ex_cache ! 1)" by simp
    with r \<open>1 < idx\<close> show False by (simp add: ex_cache_timestamp split: if_splits)
  qed
  ultimately have idx1: "idx = 1" by simp
  from slot have s1: "cache_slot c' 1 = (''fresh'', Some [3, 3], 2, 9)"
    by (simp add: idx1 value_copy_def upt_rec)
  from others have s0: "cache_slot c' 0 = cache_slot ex_cache 0"
    by (simp add: idx1 GOON_CACHE_SIZE_def)
  from count have "c_count c' = 64" by (simp add: GOON_CACHE_SIZE_def)
  with wf full ex_fresh_absent run s1 s0 show ?thesis by blast
qed

section \<open>C7: per-handler statistics\<close>




section \<open>C8: writing an event as text and reading it back\<close>

text \<open>
  Claim C8, as stated: for every event whose name is an ASCII string without \<open>,\<close> and
  \<open>}\<close>, serializing it into a large enough buffer and deserializing that buffer yields
  an event with the same id, name, priority and timestamp.

  An event with the empty name is serialized, but the \<^verbatim>\<open>%127[^,]\<close> directive of
  \<^verbatim>\<open>goon_event_deserialize\<close> needs at least one character: the scan stops after two
  conversions and the function returns \<^verbatim>\<open>NULL\<close>. It also returns \<^verbatim>\<open>NULL\<close> when the new
  event cannot be allocated.
\<close>

theorem serialize_roundtrip_counterexample:
  "ev_name (ex_event 1 []) = [] \<and>
   goon_event_serialize (Some (ex_event 1 [])) True 4096 =
     (GOON_SUCCESS, Some ''EVENT{id:1,name:,priority:1,timestamp:1700000000}'') \<and>
   goon_event_deserialize (Some ''EVENT{id:1,name:,priority:1,timestamp:1700000000}'') True 7 0 =
     (Some (None, 7) :: (nat goon_event option \<times> 32 word) option) \<and>
   goon_event_deserialize (Some ''EVENT{id:1,name:hello,priority:1,timestamp:1700000000}'') False 7 0 =
     (Some (None, 7) :: (nat goon_event option \<times> 32 word) option)"
proof -
  have a: "ev_name (ex_event 1 []) = []" by (simp add: ex_event_def)
  have b: "goon_event_serialize (Some (ex_event 1 [])) True 4096 =
     (GOON_SUCCESS, Some ''EVENT{id:1,name:,priority:1,timestamp:1700000000}'')"
    by (simp add: goon_event_serialize_def ex_event_text_empty)
  have "sscanf_event (event_text (ex_event 1 [])) = Some None"
    by (rule sscanf_event_empty_name) (rule a)
  then have c: "goon_event_deserialize (Some ''EVENT{id:1,name:,priority:1,timestamp:1700000000}'') True 7 0 =
     (Some (None, 7) :: (nat goon_event option \<times> 32 word) option)"
    by (simp add: goon_event_deserialize_def ex_event_text_empty)
  have "sscanf_event (event_text (ex_event 1 ''hello'')) =
        Some (Some (ev_id (ex_event 1 ''hello''), ev_name (ex_event 1 ''hello''),
                    ev_priority (ex_event 1 ''hello''), ev_timestamp (ex_event 1 ''hello'')))"
    by (rule sscanf_event_text) (simp_all add: ex_event_def GOON_MAX_NAME_LEN_def)
  then have d: "goon_event_deserialize (Some ''EVENT{id:1,name:hello,priority:1,timestamp:1700000000}'') False 7 0 =
     (Some (None, 7) :: (nat goon_event option \<times> 32 word) option)"
    by (simp add: goon_event_deserialize_def ex_event_text_hello goon_event_create_def)
  from a b c d show ?thesis by (iprover intro: conjI)
qed

text \<open>
  C8 as amended: for every event whose name is not empty and has no \<open>,\<close> (and, as
  the event struct ensures, at most 127 bytes), serializing it into a buffer longer than
  its text and deserializing that buffer yields, when the new event is allocated, an
  event with the same id, name, priority and timestamp. Neither ASCII nor the absence
  of \<open>}\<close> is needed: the scan of the name stops at a comma only.
\<close>

theorem serialize_roundtrip:
  assumes name: "ev_name e \<noteq> []" "length (ev_name e) < GOON_MAX_NAME_LEN"
      "CHR '','' \<notin> set (ev_name e)"
    and fits: "length (event_text e) < buffer_size"
  shows "\<exists>buf (e' :: 'v goon_event) g.
      goon_event_serialize (Some e) True buffer_size = (GOON_SUCCESS, Some buf) \<and>
      goon_event_deserialize (Some buf) True next_id now = Some (Some e', g) \<and>
      ev_id e' = ev_id e \<and> ev_name e' = ev_name e \<and>
      ev_priority e' = ev_priority e \<and> ev_timestamp e' = ev_timestamp e"
proof -
  from fits have ser: "goon_event_serialize (Some e) True buffer_size =
      (GOON_SUCCESS, Some (event_text e))"
    by (simp add: goon_event_serialize_def)
  define e' :: "'v goon_event" where "e' = \<lparr>ev_id = ev_id e, ev_name = name_copy (ev_name e),
      ev_priority = ev_priority e, ev_timestamp = ev_timestamp e, ev_data = None,
      ev_user_data = None, ev_next = None\<rparr>"
  from sscanf_event_text [OF name]
  have de: "goon_event_deserialize (Some (event_text e)) True next_id now =
      Some (Some e', next_id + 1)"
    by (simp add: goon_event_deserialize_def goon_event_create_def e'_def)
  from name(2) have "name_copy (ev_name e) = ev_name e"
    by (simp add: name_copy_def GOON_MAX_NAME_LEN_def)
  then have fields: "ev_id e' = ev_id e \<and> ev_name e' = ev_name e \<and>
      ev_priority e' = ev_priority e \<and> ev_timestamp e' = ev_timestamp e"
    by (simp add: e'_def)
  from ser de fields show ?thesis by (iprover intro: exI conjI)
qed

theorem serialize_roundtrip_witness:
  "ev_name (ex_event 1 ''hello'') \<noteq> [] \<and> CHR '','' \<notin> set (ev_name (ex_event 1 ''hello'')) \<and>
   (\<exists>buf (e' :: nat goon_event) g.
      goon_event_serialize (Some (ex_event 1 ''hello'')) True 4096 = (GOON_SUCCESS, Some buf) \<and>
      goon_event_deserialize (Some buf) True 7 0 = Some (Some e', g) \<and>
      ev_id e' = 1 \<and> ev_name e' = ''hello'' \<and>
      ev_priority e' = GOON_PRIORITY_NORMAL \<and> ev_timestamp e' = 1700000000)"
proof -
  have name: "ev_name (ex_event 1 ''hello'') \<noteq> []"
      "length (ev_name (ex_event 1 ''hello'')) < GOON_MAX_NAME_LEN"
      "CHR '','' \<notin> set (ev_name (ex_event 1 ''hello''))"
    by (simp_all add: ex_event_def GOON_MAX_NAME_LEN_def)
  have fits: "length (event_text (ex_event 1 ''hello'')) < 4096"
    by (simp add: ex_event_text_hello)
  from serialize_roundtrip [OF name fits, of 7 0]
  obtain buf and e' :: "nat goon_event" and g where
    s: "goon_event_serialize (Some (ex_event 1 ''hello'')) True 4096 = (GOON_SUCCESS, Some buf)"
    and d: "goon_event_deserialize (Some buf) True 7 0 = Some (Some e', g)"
    and f: "ev_id e' = ev_id (ex_event 1 ''hello'')" "ev_name e' = ev_name (ex_event 1 ''hello'')"
      "ev_priority e' = ev_priority (ex_event 1 ''hello'')"
      "ev_timestamp e' = ev_timestamp (ex_event 1 ''hello'')" by blast
  from f have f': "ev_id e' = 1" "ev_name e' = ''hello''"
      "ev_priority e' = GOON_PRIORITY_NORMAL" "ev_timestamp e' = 1700000000"
    by (simp_all add: ex_event_def)
  from s d f' have "\<exists>buf (e' :: nat goon_event) g.
      goon_event_serialize (Some (ex_event 1 ''hello'')) True 4096 = (GOON_SUCCESS, Some buf) \<and>
      goon_event_deserialize (Some buf) True 7 0 = Some (Some e', g) \<and>
      ev_id e' = 1 \<and> ev_name e' = ''hello'' \<and>
      ev_priority e' = GOON_PRIORITY_NORMAL \<and> ev_timestamp e' = 1700000000"
    by (iprover intro: exI conjI)
  with name(1,3) show ?thesis by (iprover intro: conjI)
qed

section \<open>C9: the pool hands a released object out again\<close>

text \<open>
  Claim C9: after \<open>acquire\<close> has returned an object \<open>a\<close> and \<open>release(a)\<close> has succeeded,
  the next \<open>acquire\<close> returns the same pointer \<open>a\<close> and marks its slot in use again.

  The three calls follow each other: \<open>p1\<close> is the pool after the first acquire, \<open>p2\<close>
  after the release. The third call returns \<open>a\<close> and puts the pool back into the state
  \<open>p1\<close>, in which the slot of \<open>a\<close> is in use. This holds for every requested size
  \<open>m\<close>, in particular for one at most the size \<open>a\<close> was allocated with, and whatever the
  allocator would return (it is not called).
\<close>

theorem pool_reuse:
  assumes wf: "pool_wf p"
    and acq: "goon_pool_acquire p n fresh = (Some a, p1)"
    and rel: "goon_pool_release p1 (Some a) = (GOON_SUCCESS, p2)"
  shows "goon_pool_acquire p2 m fresh' = (Some a, p1)"
proof -
  from acquire_post [OF wf acq] obtain k where k: "k < p_size p1" "p_objects p1 ! k = Some a"
    "p_in_use p1 ! k" and before: "\<forall>j<k. p_in_use p1 ! j \<or> p_objects p1 ! j = None"
    and wf1: "pool_wf p1" by blast
  from rel obtain i where find: "pool_find_obj p1 a 0 = Some i"
    and p2: "p2 = p1\<lparr>p_in_use := (p_in_use p1)[i := False]\<rparr>"
    by (auto simp: goon_pool_release_def GOON_SUCCESS_def GOON_ERROR_NOT_FOUND_def
             split: option.splits)
  from pool_find_obj_Some [OF find] have i: "i < p_size p1" "p_objects p1 ! i = Some a"
    and first: "\<forall>j<i. p_objects p1 ! j \<noteq> Some a" by auto
  from first k have ik: "i \<le> k" by (meson not_le)
  have used: "p_in_use p1 ! i"
  proof (cases "i = k")
    case True with k show ?thesis by simp
  next
    case False
    with ik have "i < k" by simp
    with before i show ?thesis by auto
  qed
  from wf1 i have len: "i < length (p_in_use p1)" by (simp add: pool_wf_def)
  have "pool_find_free p2 0 = Some i"
  proof (rule pool_find_free_first)
    show "\<forall>j. 0 \<le> j \<and> j < i \<longrightarrow> p_in_use p2 ! j \<or> p_objects p2 ! j = None"
      using before ik by (auto simp: p2)
  qed (use i len in \<open>simp_all add: p2\<close>)
  moreover have "p2\<lparr>p_in_use := (p_in_use p2)[i := True]\<rparr> = p1"
    using used len by (simp add: p2 list_update_same_conv)
  ultimately show ?thesis
    using i by (simp add: goon_pool_acquire_def p2)
qed

theorem pool_reuse_witness:
  "pool_wf ex_pool \<and>
   goon_pool_acquire ex_pool 16 (Some 20) =
     (Some 20, \<lparr>p_objects = [Some 10, Some 20, None], p_in_use = [True, True, False],
                p_size = 2, p_capacity = 3\<rparr>) \<and>
   goon_pool_release \<lparr>p_objects = [Some 10, Some 20, None], p_in_use = [True, True, False],
                p_size = 2, p_capacity = 3\<rparr> (Some 20) =
     (GOON_SUCCESS, \<lparr>p_objects = [Some 10, Some 20, None], p_in_use = [True, False, False],
                p_size = 2, p_capacity = 3\<rparr>) \<and>
   goon_pool_acquire \<lparr>p_objects = [Some 10, Some 20, None], p_in_use = [True, False, False],
                p_size = 2, p_capacity = 3\<rparr> 8 (Some 30) =
     (Some 20, \<lparr>p_objects = [Some 10, Some 20, None], p_in_use = [True, True, False],
                p_size = 2, p_capacity = 3\<rparr>)"
proof -
  have wf: "pool_wf ex_pool" by (simp add: pool_wf_def ex_pool_def)
  have acq: "goon_pool_acquire ex_pool 16 (Some 20) =
     (Some 20, \<lparr>p_objects = [Some 10, Some 20, None], p_in_use = [True, True, False],
                p_size = 2, p_capacity = 3\<rparr>)"
    by (simp add: goon_pool_acquire_def ex_pool_def pool_find_free.simps)
  have rel: "goon_pool_release \<lparr>p_objects = [Some 10, Some 20, None], p_in_use = [True, True, False],
                p_size = 2, p_capacity = 3\<rparr> (Some 20) =
     (GOON_SUCCESS, \<lparr>p_objects = [Some 10, Some 20, None], p_in_use = [True, False, False],
                p_size = 2, p_capacity = 3\<rparr>)"
    by (simp add: goon_pool_release_def pool_find_obj.simps)
  from wf acq rel pool_reuse [OF wf acq rel, of 8 "Some 30"] show ?thesis by (intro conjI)
qed

section \<open>C10: releasing twice\<close>

text \<open>
  Claim C10: for a pool-owned object whose slot is already marked not in use,
  \<open>release\<close> returns \<open>GOON_SUCCESS\<close> and leaves the pool unchanged; a double release is
  not an error.

  The slot of \<open>a\<close> is the first slot \<open>i\<close> that holds the pointer, the one \<open>release\<close>
  finds. If it is not in use, the call returns success and the same pool; and in any
  case a second release after a first returns success and changes nothing.
\<close>

theorem pool_release_idempotent:
  assumes wf: "pool_wf p"
    and owned: "i < p_size p" "p_objects p ! i = Some a"
    and first: "\<forall>j<i. p_objects p ! j \<noteq> Some a"
  shows "(\<not> p_in_use p ! i \<longrightarrow> goon_pool_release p (Some a) = (GOON_SUCCESS, p)) \<and>
         (\<exists>p'. goon_pool_release p (Some a) = (GOON_SUCCESS, p') \<and>
               goon_pool_release p' (Some a) = (GOON_SUCCESS, p'))"
proof -
  from owned first have find: "pool_find_obj p a 0 = Some i"
    by (intro pool_find_obj_first) auto
  from wf owned have len: "i < length (p_in_use p)" by (simp add: pool_wf_def)
  define p' where "p' = p\<lparr>p_in_use := (p_in_use p)[i := False]\<rparr>"
  from find have r1: "goon_pool_release p (Some a) = (GOON_SUCCESS, p')"
    by (simp add: goon_pool_release_def p'_def)
  have "pool_find_obj p' a 0 = Some i"
    using owned first by (intro pool_find_obj_first) (auto simp: p'_def)
  then have r2: "goon_pool_release p' (Some a) = (GOON_SUCCESS, p')"
    by (simp add: goon_pool_release_def p'_def)
  have "p' = p" if "\<not> p_in_use p ! i"
    using that len by (simp add: p'_def list_update_same_conv)
  with r1 r2 show ?thesis by auto
qed

theorem pool_release_idempotent_witness:
  "pool_wf \<lparr>p_objects = [Some 10, Some 20, None], p_in_use = [True, False, False],
            p_size = 2, p_capacity = 3\<rparr> \<and>
   goon_pool_release \<lparr>p_objects = [Some 10, Some 20, None], p_in_use = [True, False, False],
            p_size = 2, p_capacity = 3\<rparr> (Some 20) =
     (GOON_SUCCESS, \<lparr>p_objects = [Some 10, Some 20, None], p_in_use = [True, False, False],
            p_size = 2, p_capacity = 3\<rparr>)"
proof -
  let ?p = "\<lparr>p_objects = [Some 10, Some 20, None], p_in_use = [True, False, False],
            p_size = 2, p_capacity = 3\<rparr>"
  have wf: "pool_wf ?p" by (simp add: pool_wf_def)
  have first: "\<forall>j<1. p_objects ?p ! j \<noteq> Some 20" by simp
  from pool_release_idempotent [OF wf _ _ first] have "goon_pool_release ?p (Some 20) = (GOON_SUCCESS, ?p)"
    by simp
  with wf show ?thesis by (intro conjI)
qed

end
